theory Spec2Isabelle
  imports Main "HOL-Library.AList" "HOL-Library.Sublist"
begin

section \<open>Voyage data emails: the matching-and-ingestion engine of \<^verbatim>\<open>main.py\<close>\<close>

text \<open>
  The development embeds \<^verbatim>\<open>process_message\<close> and the class
  \<^verbatim>\<open>VoyageEmailParser\<close> of \<^verbatim>\<open>src/main.py\<close>. Python exceptions are
  values of the type \<open>error\<close>; every function that can raise returns \<open>error + 'a\<close>
  (\<open>Inl\<close> the exception). The objects the program mutates (the list of CSV file types with
  its cache of compiled patterns, the database) are passed in and returned.
\<close>

subsection \<open>Exceptions\<close>

text \<open>
  \<open>KeyError k\<close>: a dictionary has no key \<open>k\<close>. \<open>ValueError\<close>, \<open>IndexError\<close>: as raised by
  \<^verbatim>\<open>str.format\<close> and \<^verbatim>\<open>datetime.strptime\<close>. \<open>ReError\<close>: \<^verbatim>\<open>re.error\<close>, a pattern
  that does not compile. \<open>StorageError\<close>: whatever the database helper raises.
  \<open>OSError\<close>: a file that cannot be opened or written.
  \<open>NotModelled\<close> is no Python exception: a library function of this development returns it
  on an input outside the fragment of the library that is modelled.
\<close>

datatype error =
    KeyError string
  | ValueError
  | IndexError
  | ReError
  | StorageError
  | OSError
  | NotModelled

text \<open>\<^verbatim>\<open>d[k]\<close> on a dictionary entry that may be missing.\<close>

definition getitem :: "string \<Rightarrow> 'a option \<Rightarrow> error + 'a" where
  "getitem k v = (case v of None \<Rightarrow> Inl (KeyError k) | Some x \<Rightarrow> Inr x)"

subsection \<open>Library: \<^verbatim>\<open>str.strip\<close>, \<^verbatim>\<open>os.path.join\<close>\<close>

text \<open>
  \<^verbatim>\<open>str.strip()\<close> removes leading and trailing whitespace. A character of this
  development is a code point below 256; among these the whitespace characters of
  Python (\<^verbatim>\<open>str.isspace\<close>, and \<^verbatim>\<open>\s\<close> in a pattern) are the space,
  \<^verbatim>\<open>\t \n \v \f \r\<close>, the separators 0x1C to 0x1F, the next-line character 0x85 and
  the no-break space 0xA0.
\<close>

definition whitespace :: "char list" where
  "whitespace = [CHR '' '', CHR 0x09, CHR 0x0A, CHR 0x0B, CHR 0x0C, CHR 0x0D,
                 CHR 0x1C, CHR 0x1D, CHR 0x1E, CHR 0x1F, CHR 0x85, CHR 0xA0]"

definition is_space :: "char \<Rightarrow> bool" where
  "is_space c = (c \<in> set whitespace)"

definition strip :: "string \<Rightarrow> string" where
  "strip s = rev (dropWhile is_space (rev (dropWhile is_space s)))"

text \<open>\<^verbatim>\<open>os.path.join(a, b)\<close> of \<^verbatim>\<open>posixpath\<close>, for two components.\<close>

definition path_join :: "string \<Rightarrow> string \<Rightarrow> string" where
  "path_join a b =
     (if b \<noteq> [] \<and> hd b = CHR ''/'' then b
      else if a = [] \<or> last a = CHR ''/'' then a @ b
      else a @ ''/'' @ b)"

subsection \<open>Library: \<^verbatim>\<open>str.format\<close> with keyword arguments\<close>

text \<open>
  The values extracted from a subject are the \<^verbatim>\<open>groupdict()\<close> of the match: each
  named group with the text it matched, or \<^verbatim>\<open>None\<close> for a group that took no part in
  the match. The dictionary is an association list with distinct keys.
\<close>

type_synonym groupdict = "(string \<times> string option) list"

text \<open>\<^verbatim>\<open>str(v)\<close> for such a value.\<close>

definition str_of :: "string option \<Rightarrow> string" where
  "str_of v = (case v of None \<Rightarrow> ''None'' | Some s \<Rightarrow> s)"

text \<open>
  A replacement field \<^verbatim>\<open>{name}\<close>. The empty name is the automatic positional field,
  which has no argument to take (the call passes keyword arguments only). Fields with
  digits only (explicit positions), an attribute or an index, a conversion or a format
  specification are outside the modelled fragment.
\<close>

definition format_field :: "string \<Rightarrow> groupdict \<Rightarrow> error + string" where
  "format_field name kwargs =
     (if name = [] then Inl IndexError
      else if (\<exists>c \<in> set name. c \<in> set ''.[!:{'') \<or> (\<forall>c \<in> set name. c \<in> set ''0123456789'')
        then Inl NotModelled
      else (case map_of kwargs name of
              None \<Rightarrow> Inl (KeyError name)
            | Some v \<Rightarrow> Inr (str_of v)))"

text \<open>
  \<^verbatim>\<open>template.format(**kwargs)\<close>, scanning left to right as Python does: \<^verbatim>\<open>{{\<close> and
  \<^verbatim>\<open>}}\<close> are literal braces, a single \<^verbatim>\<open>}\<close> and an unclosed \<^verbatim>\<open>{\<close> are a
  \<^verbatim>\<open>ValueError\<close>, and the first field that fails raises. \<open>format_in\<close> reads a field
  whose opening brace has been consumed; its second argument is the name read so far.
\<close>

fun format_str :: "string \<Rightarrow> groupdict \<Rightarrow> error + string"
  and format_in :: "string \<Rightarrow> string \<Rightarrow> groupdict \<Rightarrow> error + string" where
  "format_str [] kwargs = Inr []"
| "format_str (c # cs) kwargs =
     (if c = CHR ''{'' then
        (case cs of
           [] \<Rightarrow> Inl ValueError
         | d # ds \<Rightarrow>
             if d = CHR ''{'' then
               (case format_str ds kwargs of Inl e \<Rightarrow> Inl e | Inr r \<Rightarrow> Inr (CHR ''{'' # r))
             else format_in cs [] kwargs)
      else if c = CHR ''}'' then
        (case cs of
           [] \<Rightarrow> Inl ValueError
         | d # ds \<Rightarrow>
             if d = CHR ''}'' then
               (case format_str ds kwargs of Inl e \<Rightarrow> Inl e | Inr r \<Rightarrow> Inr (CHR ''}'' # r))
             else Inl ValueError)
      else (case format_str cs kwargs of Inl e \<Rightarrow> Inl e | Inr r \<Rightarrow> Inr (c # r)))"
| "format_in [] name kwargs = Inl ValueError"
| "format_in (c # cs) name kwargs =
     (if c = CHR ''}'' then
        (case format_field name kwargs of
           Inl e \<Rightarrow> Inl e
         | Inr v \<Rightarrow> (case format_str cs kwargs of Inl e \<Rightarrow> Inl e | Inr r \<Rightarrow> Inr (v @ r)))
      else format_in cs (name @ [c]) kwargs)"

subsection \<open>Library: compiled patterns and \<^verbatim>\<open>Pattern.match\<close>\<close>

text \<open>
  A compiled pattern is a regular expression with named groups: the fragment of
  \<^verbatim>\<open>re\<close> with literal characters, character classes, concatenation, alternation,
  greedy repetition and \<^verbatim>\<open>(?P<name>...)\<close>. (\<^verbatim>\<open>r+\<close> is \<open>Seq r (Star r)\<close>,
  \<^verbatim>\<open>r?\<close> is \<open>Alt r Eps\<close>.)
\<close>

datatype regex =
    Eps
  | Lit char
  | OneOf "char list"
  | Seq regex regex
  | Alt regex regex
  | Star regex
  | Named string regex

text \<open>
  The matcher is the backtracking search of \<^verbatim>\<open>re\<close>, as a list of successes in the
  order the search finds them: a state is the groups captured so far and the text still
  to read. Alternation tries the left branch first, repetition is greedy. An iteration
  of a repetition that consumes nothing is taken once and ends the repetition, as in
  \<^verbatim>\<open>re\<close>; the first argument of \<open>rx_iter\<close> bounds the number of iterations by the
  length of the text.
\<close>

type_synonym mstate = "groupdict \<times> string"

fun rx_iter :: "nat \<Rightarrow> (mstate \<Rightarrow> mstate list) \<Rightarrow> mstate \<Rightarrow> mstate list" where
  "rx_iter 0 f st = [st]"
| "rx_iter (Suc n) f st =
     concat (map (\<lambda>st'. if length (snd st') < length (snd st) then rx_iter n f st' else [st'])
                 (f st)) @ [st]"

fun rx_run :: "regex \<Rightarrow> mstate \<Rightarrow> mstate list" where
  "rx_run Eps st = [st]"
| "rx_run (Lit c) st =
     (case snd st of [] \<Rightarrow> [] | x # xs \<Rightarrow> if x = c then [(fst st, xs)] else [])"
| "rx_run (OneOf cs) st =
     (case snd st of [] \<Rightarrow> [] | x # xs \<Rightarrow> if x \<in> set cs then [(fst st, xs)] else [])"
| "rx_run (Seq a b) st = concat (map (rx_run b) (rx_run a st))"
| "rx_run (Alt a b) st = rx_run a st @ rx_run b st"
| "rx_run (Star a) st = rx_iter (Suc (length (snd st))) (rx_run a) st"
| "rx_run (Named n a) st =
     map (\<lambda>st'. (AList.update n (Some (take (length (snd st) - length (snd st')) (snd st)))
                    (fst st'), snd st'))
         (rx_run a st)"

fun group_names :: "regex \<Rightarrow> string list" where
  "group_names Eps = []"
| "group_names (Lit c) = []"
| "group_names (OneOf cs) = []"
| "group_names (Seq a b) = group_names a @ group_names b"
| "group_names (Alt a b) = group_names a @ group_names b"
| "group_names (Star a) = group_names a"
| "group_names (Named n a) = n # group_names a"

text \<open>
  \<^verbatim>\<open>pattern.match(string)\<close>: the first success of the search started at the beginning
  of the string, whatever text is left over, or \<^verbatim>\<open>None\<close>. The result is the pair of
  \<^verbatim>\<open>groupdict()\<close> and the text after the match (\<^verbatim>\<open>string[match.end():]\<close>).
\<close>

definition rx_match_end :: "regex \<Rightarrow> string \<Rightarrow> (groupdict \<times> string) option" where
  "rx_match_end r s =
     (case rx_run r (map (\<lambda>n. (n, None)) (remdups (group_names r)), s) of
        [] \<Rightarrow> None
      | st # _ \<Rightarrow> Some st)"

definition rx_match :: "regex \<Rightarrow> string \<Rightarrow> groupdict option" where
  "rx_match r s = map_option fst (rx_match_end r s)"

text \<open>The words a pattern denotes, for stating what \<open>rx_match\<close> accepts.\<close>

inductive_set star :: "string set \<Rightarrow> string set" for A :: "string set" where
  star_empty: "[] \<in> star A"
| star_step: "u \<in> A \<Longrightarrow> v \<in> star A \<Longrightarrow> u @ v \<in> star A"

fun lang :: "regex \<Rightarrow> string set" where
  "lang Eps = {[]}"
| "lang (Lit c) = {[c]}"
| "lang (OneOf cs) = {[x] | x. x \<in> set cs}"
| "lang (Seq a b) = {u @ v | u v. u \<in> lang a \<and> v \<in> lang b}"
| "lang (Alt a b) = lang a \<union> lang b"
| "lang (Star a) = star (lang a)"
| "lang (Named n a) = lang a"

subsection \<open>Library: \<^verbatim>\<open>datetime.strptime\<close>\<close>

text \<open>
  A \<^verbatim>\<open>datetime\<close> value without time zone and microseconds.
\<close>

record datetime =
  year :: nat
  month :: nat
  day :: nat
  hour :: nat
  minute :: nat
  second :: nat

definition digits :: "char list" where
  "digits = ''0123456789''"

definition swapcase :: "char \<Rightarrow> char" where
  "swapcase c =
     (let n = of_char c :: nat in
      if 65 \<le> n \<and> n \<le> 90 \<or> 192 \<le> n \<and> n \<le> 222 \<and> n \<noteq> 215 then char_of (n + 32)
      else if 97 \<le> n \<and> n \<le> 122 \<or> 224 \<le> n \<and> n \<le> 254 \<and> n \<noteq> 247 then char_of (n - 32)
      else c)"

text \<open>
  The pattern \<^verbatim>\<open>_strptime\<close> builds for a directive: \<^verbatim>\<open>%Y\<close> is
  \<^verbatim>\<open>(?P<Y>\d\d\d\d)\<close>, \<^verbatim>\<open>%m\<close> is \<^verbatim>\<open>(?P<m>1[0-2]|0[1-9]|[1-9])\<close>, \<^verbatim>\<open>%d\<close> is
  \<^verbatim>\<open>(?P<d>3[0-1]|[1-2]\d|0[1-9]|[1-9]| [1-9])\<close>, \<^verbatim>\<open>%H\<close> is
  \<^verbatim>\<open>(?P<H>2[0-3]|[0-1]\d|\d)\<close>, \<^verbatim>\<open>%M\<close> is \<^verbatim>\<open>(?P<M>[0-5]\d|\d)\<close>, \<^verbatim>\<open>%S\<close> is
  \<^verbatim>\<open>(?P<S>6[0-1]|[0-5]\d|\d)\<close>. The other directives are outside the modelled
  fragment.
\<close>

definition directive_regex :: "char \<Rightarrow> regex option" where
  "directive_regex d =
     (if d = CHR ''Y'' then
        Some (Named ''Y'' (Seq (OneOf digits) (Seq (OneOf digits) (Seq (OneOf digits) (OneOf digits)))))
      else if d = CHR ''m'' then
        Some (Named ''m'' (Alt (Seq (Lit CHR ''1'') (OneOf ''012''))
                          (Alt (Seq (Lit CHR ''0'') (OneOf ''123456789'')) (OneOf ''123456789''))))
      else if d = CHR ''d'' then
        Some (Named ''d'' (Alt (Seq (Lit CHR ''3'') (OneOf ''01''))
                          (Alt (Seq (OneOf ''12'') (OneOf digits))
                          (Alt (Seq (Lit CHR ''0'') (OneOf ''123456789''))
                          (Alt (OneOf ''123456789'')
                               (Seq (Lit CHR '' '') (OneOf ''123456789'')))))))
      else if d = CHR ''H'' then
        Some (Named ''H'' (Alt (Seq (Lit CHR ''2'') (OneOf ''0123''))
                          (Alt (Seq (OneOf ''01'') (OneOf digits)) (OneOf digits))))
      else if d = CHR ''M'' then
        Some (Named ''M'' (Alt (Seq (OneOf ''012345'') (OneOf digits)) (OneOf digits)))
      else if d = CHR ''S'' then
        Some (Named ''S'' (Alt (Seq (Lit CHR ''6'') (OneOf ''01''))
                          (Alt (Seq (OneOf ''012345'') (OneOf digits)) (OneOf digits))))
      else None)"

text \<open>
  The pattern of a whole format: a directive by the table, \<^verbatim>\<open>%%\<close> a literal
  percent sign, a run of whitespace any non-empty run of whitespace
  (\<^verbatim>\<open>\s+\<close>), any other character itself in either case (the pattern is compiled
  with \<^verbatim>\<open>re.IGNORECASE\<close>). A percent sign that ends the format is a
  \<^verbatim>\<open>ValueError\<close>.
\<close>

fun strptime_regex :: "string \<Rightarrow> error + regex" where
  "strptime_regex [] = Inr Eps"
| "strptime_regex [c] =
     (if c = CHR ''%'' then Inl ValueError
      else if c \<in> set whitespace then Inr (Seq (OneOf whitespace) (Star (OneOf whitespace)))
      else Inr (OneOf [c, swapcase c]))"
| "strptime_regex (c # d # cs) =
     (if c = CHR ''%'' then
        (case (if d = CHR ''%'' then Some (Lit CHR ''%'') else directive_regex d) of
           None \<Rightarrow> Inl NotModelled
         | Some r \<Rightarrow>
             (case strptime_regex cs of Inl e \<Rightarrow> Inl e | Inr rs \<Rightarrow> Inr (Seq r rs)))
      else if c \<in> set whitespace then
        (if d \<in> set whitespace then strptime_regex (d # cs)
         else (case strptime_regex (d # cs) of
                 Inl e \<Rightarrow> Inl e
               | Inr rs \<Rightarrow> Inr (Seq (Seq (OneOf whitespace) (Star (OneOf whitespace))) rs)))
      else (case strptime_regex (d # cs) of
              Inl e \<Rightarrow> Inl e
            | Inr rs \<Rightarrow> Inr (Seq (OneOf [c, swapcase c]) rs)))"

text \<open>\<^verbatim>\<open>int(text)\<close> for the text of a group: digits, after an optional space.\<close>

definition int_of :: "string \<Rightarrow> nat" where
  "int_of s = foldl (\<lambda>n c. 10 * n + (of_char c - 48)) 0 (filter (\<lambda>c. c \<in> set digits) s)"

definition group_int :: "groupdict \<Rightarrow> string \<Rightarrow> nat \<Rightarrow> nat" where
  "group_int g k dflt = (case map_of g k of Some (Some s) \<Rightarrow> int_of s | _ \<Rightarrow> dflt)"

definition is_leap :: "nat \<Rightarrow> bool" where
  "is_leap y = (y mod 4 = 0 \<and> (y mod 100 \<noteq> 0 \<or> y mod 400 = 0))"

definition days_in_month :: "nat \<Rightarrow> nat \<Rightarrow> nat" where
  "days_in_month y m =
     (if m = 2 then (if is_leap y then 29 else 28)
      else if m \<in> {4, 6, 9, 11} then 30 else 31)"

text \<open>
  \<^verbatim>\<open>datetime.strptime(data_string, format)\<close>. A directive used twice defines a
  group name twice: the pattern does not compile, and the \<^verbatim>\<open>re.error\<close> is not
  caught. Text the pattern does not match at its beginning, text left over after the
  match, and a date or time out of range (year 0, a day the month does not have, second
  60 or 61) are a \<^verbatim>\<open>ValueError\<close>. Fields the format does not name are those of
  1 January 1900, 00:00:00.
\<close>

definition strptime :: "string \<Rightarrow> string \<Rightarrow> error + datetime" where
  "strptime data_string fmt =
     (case strptime_regex fmt of
        Inl e \<Rightarrow> Inl e
      | Inr r \<Rightarrow>
          if \<not> distinct (group_names r) then Inl ReError
          else (case rx_match_end r data_string of
                  None \<Rightarrow> Inl ValueError
                | Some (found, rest) \<Rightarrow>
                    if rest \<noteq> [] then Inl ValueError
                    else
                      (let y = group_int found ''Y'' 1900;
                           m = group_int found ''m'' 1;
                           d = group_int found ''d'' 1;
                           s = group_int found ''S'' 0
                       in if y < 1 \<or> days_in_month y m < d \<or> 59 < s then Inl ValueError
                          else Inr \<lparr>year = y, month = m, day = d,
                                    hour = group_int found ''H'' 0,
                                    minute = group_int found ''M'' 0,
                                    second = s\<rparr>)))"

subsection \<open>Configuration, messages and collaborators\<close>

text \<open>
  One entry of \<^verbatim>\<open>csv_file_types\<close> is a dictionary read from the settings; a key the
  program reads with \<^verbatim>\<open>d[k]\<close> may be missing, which raises \<^verbatim>\<open>KeyError\<close>. The
  entry \<^verbatim>\<open>check\<close> holds the required sender (\<^verbatim>\<open>check['from']\<close>), the pieces of the
  subject pattern and, once compiled, the compiled pattern. The details of a column
  hold its keys \<^verbatim>\<open>field\<close>, \<^verbatim>\<open>type\<close> and \<^verbatim>\<open>csv_format\<close>. Two keys are named as
  the program names what it reads from them: \<open>required_from\<close> is \<^verbatim>\<open>check['from']\<close> and
  \<open>item_type\<close> is \<^verbatim>\<open>details['type']\<close>.
\<close>

record column_details =
  field :: "string option"
  item_type :: "string option"
  csv_format :: "string option"

type_synonym columns = "(string \<times> column_details) list"

record check =
  required_from :: "string option"
  subject_regex :: "string list option"
  subject_regex_compiled :: "regex option"

record name_format =
  file_name_format :: "string option"

record load_csv =
  columns :: "columns option"

record csv_type =
  check :: "check option"
  save_table :: "name_format option"
  load_csv :: "load_csv option"
  save_csv :: "name_format option"

text \<open>A message: its \<^verbatim>\<open>From\<close> and \<^verbatim>\<open>Subject\<close> headers and its text.\<close>

record message =
  From :: string
  Subject :: string
  payload :: string

text \<open>A value stored in a database field: the text of the CSV, or a date and time.\<close>

datatype pyval = Str string | DateTime datetime

type_synonym fields = "(string \<times> pyval) list"

type_synonym csv_row = "string \<rightharpoonup> string"

text \<open>
  What the program does to its collaborators, in the order it does it: a call of
  \<^verbatim>\<open>re.compile\<close> for the type at an index of the list, the three calls on the
  database helper, and the writing of a file (recorded when it is attempted).
\<close>

datatype event =
    ReCompile nat string
  | TableExists string
  | CreateTable string columns
  | InsertRow string fields
  | FileWrite string string

text \<open>
  The collaborators are parameters: \<^verbatim>\<open>email.utils.parseaddr\<close>, \<^verbatim>\<open>re.compile\<close> (which
  raises on a pattern that does not compile), the setting \<^verbatim>\<open>CSV_FOLDER\<close>, the file
  system (opening a path for writing and writing a text to it, which may raise), the
  reader that turns the text of a message into CSV rows, and the database helper over
  a state \<open>'db\<close> of its own, whose \<^verbatim>\<open>create_table\<close> and \<^verbatim>\<open>insert_row\<close> may raise.
\<close>

record 'db env =
  parseaddr :: "string \<Rightarrow> string \<times> string"
  re_compile :: "string \<Rightarrow> error + regex"
  CSV_FOLDER :: string
  write_file :: "string \<Rightarrow> string \<Rightarrow> error option"
  csv_rows :: "string \<Rightarrow> csv_row list"
  table_exists :: "'db \<Rightarrow> string \<Rightarrow> bool"
  create_table :: "'db \<Rightarrow> string \<Rightarrow> columns \<Rightarrow> error + 'db"
  insert_row :: "'db \<Rightarrow> string \<Rightarrow> fields \<Rightarrow> error + 'db"

text \<open>The state outside the configuration: the database and the calls made so far.\<close>

record 'db world =
  database :: 'db
  trace :: "event list"

definition emit :: "'db world \<Rightarrow> event \<Rightarrow> 'db world" where
  "emit w e = w\<lparr>trace := trace w @ [e]\<rparr>"

subsection \<open>\<^verbatim>\<open>VoyageEmailParser\<close>\<close>

text \<open>The attributes of a parser object; its database is the one of the world.\<close>

record parser =
  table_name :: string
  save_file_path :: "string option"
  csv_columns :: "(string \<times> string \<times> column_details) list"

text \<open>
  \<^verbatim>\<open>__init__\<close>, lines 52 to 64: the path of the copy of the CSV. Only a
  \<^verbatim>\<open>KeyError\<close> is caught, whether it comes from a missing key of the settings or from
  \<^verbatim>\<open>format\<close>; it leaves \<^verbatim>\<open>save_file_path\<close> at \<^verbatim>\<open>None\<close>.
\<close>

definition init_save_file_path :: "'db env \<Rightarrow> csv_type \<Rightarrow> groupdict \<Rightarrow> error + string option" where
  "init_save_file_path env settings subject_values =
     (case (case getitem ''save_csv'' (save_csv settings) of
              Inl e \<Rightarrow> Inl e
            | Inr sc \<Rightarrow>
                (case getitem ''file_name_format'' (file_name_format sc) of
                   Inl e \<Rightarrow> Inl e
                 | Inr fnf \<Rightarrow>
                     (case format_str (strip fnf) subject_values of
                        Inl e \<Rightarrow> Inl e
                      | Inr file_name \<Rightarrow> Inr (path_join (CSV_FOLDER env) file_name)))) of
        Inl (KeyError k) \<Rightarrow> Inr None
      | Inl e \<Rightarrow> Inl e
      | Inr path \<Rightarrow> Inr (Some path))"

text \<open>\<^verbatim>\<open>__init__\<close>, lines 67 to 75: the expected columns, with their field names.\<close>

definition init_csv_columns :: "csv_type \<Rightarrow> error + (string \<times> string \<times> column_details) list" where
  "init_csv_columns settings =
     (case getitem ''load_csv'' (load_csv settings) of
        Inl e \<Rightarrow> Inl e
      | Inr lc \<Rightarrow>
          (case getitem ''columns'' (columns lc) of
             Inl e \<Rightarrow> Inl e
           | Inr cols \<Rightarrow>
               Inr (map (\<lambda>(csv_name, details).
                          (csv_name,
                           (case field details of None \<Rightarrow> csv_name | Some f \<Rightarrow> f),
                           details))
                        cols)))"

definition VoyageEmailParser_init ::
    "'db env \<Rightarrow> csv_type \<Rightarrow> string \<Rightarrow> groupdict \<Rightarrow> error + parser" where
  "VoyageEmailParser_init env settings tname subject_values =
     (case init_save_file_path env settings subject_values of
        Inl e \<Rightarrow> Inl e
      | Inr path \<Rightarrow>
          (case init_csv_columns settings of
             Inl e \<Rightarrow> Inl e
           | Inr cols \<Rightarrow>
               Inr \<lparr>table_name = tname, save_file_path = path, csv_columns = cols\<rparr>))"

text \<open>
  \<^verbatim>\<open>process_csv_row\<close>, lines 114 to 133: the loop over the expected columns. A column
  whose name the row does not have, or whose details have no \<^verbatim>\<open>type\<close>, is skipped
  (\<^verbatim>\<open>continue\<close>); so is a \<^verbatim>\<open>datetime\<close> column without \<^verbatim>\<open>csv_format\<close>. What
  \<^verbatim>\<open>strptime\<close> raises is not caught. The third argument is the dictionary
  \<^verbatim>\<open>fields\<close> built so far.
\<close>

fun coerce_columns ::
    "(string \<times> string \<times> column_details) list \<Rightarrow> csv_row \<Rightarrow> fields \<Rightarrow> error + fields" where
  "coerce_columns [] row flds = Inr flds"
| "coerce_columns ((csv_name, field_name, details) # cs) row flds =
     (case row csv_name of
        None \<Rightarrow> coerce_columns cs row flds
      | Some v \<Rightarrow>
          (case item_type details of
             None \<Rightarrow> coerce_columns cs row flds
           | Some ty \<Rightarrow>
               if ''datetime'' = ty then
                 (case csv_format details of
                    None \<Rightarrow> coerce_columns cs row flds
                  | Some f \<Rightarrow>
                      (case strptime v (strip f) of
                         Inl e \<Rightarrow> Inl e
                       | Inr dt \<Rightarrow>
                           coerce_columns cs row (AList.update field_name (DateTime dt) flds)))
               else coerce_columns cs row (AList.update field_name (Str v) flds)))"

text \<open>
  The call of a database method that changes the database: the call is recorded, then
  it either raises or leaves a new database.
\<close>

definition db_call :: "'db world \<Rightarrow> event \<Rightarrow> error + 'db \<Rightarrow> (error + unit) \<times> 'db world" where
  "db_call w e r =
     (case r of
        Inl err \<Rightarrow> (Inl err, emit w e)
      | Inr db' \<Rightarrow> (Inr (), (emit w e)\<lparr>database := db'\<rparr>))"

text \<open>\<^verbatim>\<open>process_csv_row\<close>, lines 111 to 135.\<close>

definition process_csv_row ::
    "'db env \<Rightarrow> parser \<Rightarrow> csv_row \<Rightarrow> 'db world \<Rightarrow> (error + unit) \<times> 'db world" where
  "process_csv_row env self row w =
     (case coerce_columns (csv_columns self) row [] of
        Inl e \<Rightarrow> (Inl e, w)
      | Inr flds \<Rightarrow>
          db_call w (InsertRow (table_name self) flds)
            (insert_row env (database w) (table_name self) flds))"

text \<open>
  Modelled from the spec: \<^verbatim>\<open>CSVEmailParser.process_csv_content\<close> of the module
  \<^verbatim>\<open>csv_email\<close>, which \<^verbatim>\<open>main.py\<close> imports and whose source is not among the source
  files. By the specification the base class streams the CSV records of the message's
  text, in their order, and hands each to \<^verbatim>\<open>process_csv_row\<close>; an error of a row is
  not caught and ends the loop. The records are those the CSV reader of the
  environment finds in the text.
\<close>

fun process_csv_rows ::
    "'db env \<Rightarrow> parser \<Rightarrow> csv_row list \<Rightarrow> 'db world \<Rightarrow> (error + unit) \<times> 'db world" where
  "process_csv_rows env self [] w = (Inr (), w)"
| "process_csv_rows env self (row # rows) w =
     (case process_csv_row env self row w of
        (Inl e, w') \<Rightarrow> (Inl e, w')
      | (Inr u, w') \<Rightarrow> process_csv_rows env self rows w')"

definition CSVEmailParser_process_csv_content ::
    "'db env \<Rightarrow> parser \<Rightarrow> string \<Rightarrow> 'db world \<Rightarrow> (error + unit) \<times> 'db world" where
  "CSVEmailParser_process_csv_content env self content w =
     process_csv_rows env self (csv_rows env content) w"

text \<open>
  \<^verbatim>\<open>process_csv_content\<close>, lines 89 to 95: the copy of the CSV is written when
  \<^verbatim>\<open>save_file_path\<close> is set; then the base class goes on. What opening or writing
  the file raises is not caught: the rows are not processed then.
\<close>

definition process_csv_content ::
    "'db env \<Rightarrow> parser \<Rightarrow> string \<Rightarrow> 'db world \<Rightarrow> (error + unit) \<times> 'db world" where
  "process_csv_content env self content w =
     (case save_file_path self of
        None \<Rightarrow> CSVEmailParser_process_csv_content env self content w
      | Some path \<Rightarrow>
          (case write_file env path content of
             Some e \<Rightarrow> (Inl e, emit w (FileWrite path content))
           | None \<Rightarrow>
               CSVEmailParser_process_csv_content env self content
                 (emit w (FileWrite path content))))"

text \<open>
  Modelled from the spec: \<^verbatim>\<open>CSVEmailParser.process_message\<close> of the same module, which
  hands the text of the message to \<^verbatim>\<open>process_csv_content\<close> of the object.
\<close>

definition CSVEmailParser_process_message ::
    "'db env \<Rightarrow> parser \<Rightarrow> message \<Rightarrow> 'db world \<Rightarrow> (error + unit) \<times> 'db world" where
  "CSVEmailParser_process_message env self msg w =
     process_csv_content env self (payload msg) w"

subsection \<open>\<^verbatim>\<open>process_message\<close>\<close>

text \<open>
  The body of the loop over the types, lines 182 to 208, for the type at index \<open>i\<close>:
  the type is passed over (\<^verbatim>\<open>continue\<close>) when the sender differs or the subject does
  not match, and a missing key or a pattern that does not compile raises. The compiled
  pattern is taken from the entry when it is there; otherwise the pieces are joined,
  compiled, and the compiled pattern stored in the entry.
\<close>

datatype outcome = Raised error | Continue | Matched groupdict

definition match_subject :: "regex \<Rightarrow> string \<Rightarrow> outcome" where
  "match_subject rx subject =
     (case rx_match rx subject of None \<Rightarrow> Continue | Some match_dict \<Rightarrow> Matched match_dict)"

definition check_type ::
    "'db env \<Rightarrow> string \<Rightarrow> string \<Rightarrow> nat \<Rightarrow> csv_type \<Rightarrow> outcome \<times> csv_type \<times> event list" where
  "check_type env email_from subject i ct =
     (case check ct of
        None \<Rightarrow> (Raised (KeyError ''check''), ct, [])
      | Some chk \<Rightarrow>
          (case required_from chk of
             None \<Rightarrow> (Raised (KeyError ''from''), ct, [])
           | Some rf \<Rightarrow>
               if email_from \<noteq> rf then (Continue, ct, [])
               else
                 (case subject_regex_compiled chk of
                    Some rx \<Rightarrow> (match_subject rx subject, ct, [])
                  | None \<Rightarrow>
                      (case subject_regex chk of
                         None \<Rightarrow> (Raised (KeyError ''subject_regex''), ct, [])
                       | Some subject_regex_list \<Rightarrow>
                           (case re_compile env (concat subject_regex_list) of
                              Inl e \<Rightarrow>
                                (Raised e, ct, [ReCompile i (concat subject_regex_list)])
                            | Inr rx \<Rightarrow>
                                (match_subject rx subject,
                                 ct\<lparr>check := Some (chk\<lparr>subject_regex_compiled := Some rx\<rparr>)\<rparr>,
                                 [ReCompile i (concat subject_regex_list)]))))))"

text \<open>Lines 223 to 232: the table is created when the database does not have it.\<close>

definition ensure_table ::
    "'db env \<Rightarrow> csv_type \<Rightarrow> string \<Rightarrow> 'db world \<Rightarrow> (error + unit) \<times> 'db world" where
  "ensure_table env ct tname w =
     (let w1 = emit w (TableExists tname) in
      if \<not> table_exists env (database w) tname then
        (case getitem ''load_csv'' (load_csv ct) of
           Inl e \<Rightarrow> (Inl e, w1)
         | Inr lc \<Rightarrow>
             (case getitem ''columns'' (columns lc) of
                Inl e \<Rightarrow> (Inl e, w1)
              | Inr cols \<Rightarrow>
                  db_call w1 (CreateTable tname cols) (create_table env (database w) tname cols)))
      else (Inr (), w1))"

text \<open>Lines 215 to 221: the name of the table, from the template and the values.\<close>

definition make_table_name :: "csv_type \<Rightarrow> groupdict \<Rightarrow> error + string" where
  "make_table_name ct match_dict =
     (case getitem ''save_table'' (save_table ct) of
        Inl e \<Rightarrow> Inl e
      | Inr st \<Rightarrow>
          (case getitem ''file_name_format'' (file_name_format st) of
             Inl e \<Rightarrow> Inl e
           | Inr table_name_format \<Rightarrow> format_str (strip table_name_format) match_dict))"

text \<open>Lines 210 to 238: what is done with the type that matched.\<close>

definition ingest_matched ::
    "'db env \<Rightarrow> message \<Rightarrow> csv_type \<Rightarrow> groupdict \<Rightarrow> 'db world \<Rightarrow> (error + bool) \<times> 'db world" where
  "ingest_matched env msg ct match_dict w =
     (case make_table_name ct match_dict of
        Inl e \<Rightarrow> (Inl e, w)
      | Inr tname \<Rightarrow>
          (case ensure_table env ct tname w of
             (Inl e, w1) \<Rightarrow> (Inl e, w1)
           | (Inr u, w1) \<Rightarrow>
               (case VoyageEmailParser_init env ct tname match_dict of
                  Inl e \<Rightarrow> (Inl e, w1)
                | Inr self \<Rightarrow>
                    (case CSVEmailParser_process_message env self msg w1 of
                       (Inl e, w2) \<Rightarrow> (Inl e, w2)
                     | (Inr u', w2) \<Rightarrow> (Inr True, w2)))))"

text \<open>
  The loop of lines 181 to 241. The types already passed over are the fourth argument,
  with what the loop stored in them; the result is the value returned or the exception
  raised, the list of types as the loop leaves it, and the world.
\<close>

fun types_loop ::
    "'db env \<Rightarrow> message \<Rightarrow> string \<Rightarrow> csv_type list \<Rightarrow> csv_type list \<Rightarrow> 'db world
       \<Rightarrow> (error + bool) \<times> csv_type list \<times> 'db world" where
  "types_loop env msg email_from passed [] w = (Inr False, passed, w)"
| "types_loop env msg email_from passed (ct # rest) w =
     (case check_type env email_from (Subject msg) (length passed) ct of
        (Raised e, ct', evs) \<Rightarrow> (Inl e, passed @ ct' # rest, w\<lparr>trace := trace w @ evs\<rparr>)
      | (Continue, ct', evs) \<Rightarrow>
          types_loop env msg email_from (passed @ [ct']) rest (w\<lparr>trace := trace w @ evs\<rparr>)
      | (Matched match_dict, ct', evs) \<Rightarrow>
          (case ingest_matched env msg ct' match_dict (w\<lparr>trace := trace w @ evs\<rparr>) of
             (r, w') \<Rightarrow> (r, passed @ ct' # rest, w')))"

text \<open>Line 173: the address part of the \<^verbatim>\<open>From\<close> header.\<close>

definition email_from :: "'db env \<Rightarrow> message \<Rightarrow> string" where
  "email_from env msg = snd (parseaddr env (From msg))"

definition process_message ::
    "'db env \<Rightarrow> 'db world \<Rightarrow> message \<Rightarrow> csv_type list
       \<Rightarrow> (error + bool) \<times> csv_type list \<times> 'db world" where
  "process_message env w msg csv_file_types =
     types_loop env msg (email_from env msg) [] csv_file_types w"

text \<open>
  \<^verbatim>\<open>process_emails\<close>, lines 259 to 271: without file types nothing is read; otherwise
  the messages are processed in their order, the value \<^verbatim>\<open>process_message\<close> returns
  is dropped, and an exception ends the run.
\<close>

fun messages_loop ::
    "'db env \<Rightarrow> 'db world \<Rightarrow> csv_type list \<Rightarrow> message list
       \<Rightarrow> (error + bool) \<times> csv_type list \<times> 'db world" where
  "messages_loop env w types [] = (Inr True, types, w)"
| "messages_loop env w types (msg # msgs) =
     (case process_message env w msg types of
        (Inl e, types', w') \<Rightarrow> (Inl e, types', w')
      | (Inr b, types', w') \<Rightarrow> messages_loop env w' types' msgs)"

definition process_emails ::
    "'db env \<Rightarrow> 'db world \<Rightarrow> csv_type list option \<Rightarrow> message list
       \<Rightarrow> (error + bool) \<times> csv_type list \<times> 'db world" where
  "process_emails env w csv_file_types msgs =
     (case csv_file_types of
        None \<Rightarrow> (Inr False, [], w)
      | Some types \<Rightarrow> messages_loop env w types msgs)"

subsection \<open>The vocabulary of the specification\<close>

text \<open>
  The pattern of a type's entry, as the specification speaks of it: the compiled
  pattern the entry holds, or else what its text compiles to.
\<close>

definition pattern_of :: "'db env \<Rightarrow> check \<Rightarrow> error + regex" where
  "pattern_of env chk =
     (case subject_regex_compiled chk of
        Some rx \<Rightarrow> Inr rx
      | None \<Rightarrow>
          (case subject_regex chk of
             None \<Rightarrow> Inl (KeyError ''subject_regex'')
           | Some subject_regex_list \<Rightarrow> re_compile env (concat subject_regex_list)))"

text \<open>
  A document type of the specification has a sender and a subject pattern: the entry
  has both keys and the pattern compiles.
\<close>

definition well_formed :: "'db env \<Rightarrow> csv_type \<Rightarrow> bool" where
  "well_formed env ct =
     (case check ct of
        None \<Rightarrow> False
      | Some chk \<Rightarrow> required_from chk \<noteq> None \<and> \<not> isl (pattern_of env chk))"

text \<open>The sender check of a type equals the from-address of the message.\<close>

definition sender_matches :: "'db env \<Rightarrow> message \<Rightarrow> csv_type \<Rightarrow> bool" where
  "sender_matches env msg ct =
     (case check ct of
        None \<Rightarrow> False
      | Some chk \<Rightarrow> required_from chk = Some (email_from env msg))"

text \<open>The values the subject pattern of a type extracts from the subject, if it matches.\<close>

definition subject_values :: "'db env \<Rightarrow> message \<Rightarrow> csv_type \<Rightarrow> groupdict option" where
  "subject_values env msg ct =
     (case check ct of
        None \<Rightarrow> None
      | Some chk \<Rightarrow>
          (case pattern_of env chk of
             Inl e \<Rightarrow> None
           | Inr rx \<Rightarrow> rx_match rx (Subject msg)))"

definition accepts :: "'db env \<Rightarrow> message \<Rightarrow> csv_type \<Rightarrow> bool" where
  "accepts env msg ct = (sender_matches env msg ct \<and> subject_values env msg ct \<noteq> None)"

text \<open>An entry without what the loop stored in it.\<close>

definition forget_compiled :: "csv_type \<Rightarrow> csv_type" where
  "forget_compiled ct =
     ct\<lparr>check := map_option (\<lambda>chk. chk\<lparr>subject_regex_compiled := None\<rparr>) (check ct)\<rparr>"

text \<open>
  The three parts of what \<open>process_message\<close> leaves: the value returned or the
  exception raised, the list of types, and the world.
\<close>

definition returned ::
    "'db env \<Rightarrow> 'db world \<Rightarrow> message \<Rightarrow> csv_type list \<Rightarrow> error + bool" where
  "returned env w msg types = fst (process_message env w msg types)"

definition types_after ::
    "'db env \<Rightarrow> 'db world \<Rightarrow> message \<Rightarrow> csv_type list \<Rightarrow> csv_type list" where
  "types_after env w msg types = fst (snd (process_message env w msg types))"

definition world_after ::
    "'db env \<Rightarrow> 'db world \<Rightarrow> message \<Rightarrow> csv_type list \<Rightarrow> 'db world" where
  "world_after env w msg types = snd (snd (process_message env w msg types))"

text \<open>The calls a step adds to the trace, and the kinds of calls.\<close>

definition new_events :: "'db world \<Rightarrow> 'db world \<Rightarrow> event list" where
  "new_events w w' = drop (length (trace w)) (trace w')"

definition message_events ::
    "'db env \<Rightarrow> 'db world \<Rightarrow> message \<Rightarrow> csv_type list \<Rightarrow> event list" where
  "message_events env w msg types = new_events w (world_after env w msg types)"

fun is_compile :: "event \<Rightarrow> bool" where
  "is_compile (ReCompile i p) = True"
| "is_compile e = False"

fun is_create :: "event \<Rightarrow> bool" where
  "is_create (CreateTable n cols) = True"
| "is_create e = False"

fun is_insert :: "event \<Rightarrow> bool" where
  "is_insert (InsertRow n flds) = True"
| "is_insert e = False"

fun is_write :: "event \<Rightarrow> bool" where
  "is_write (FileWrite path content) = True"
| "is_write e = False"

fun compiles_type :: "nat \<Rightarrow> event \<Rightarrow> bool" where
  "compiles_type i (ReCompile j p) = (i = j)"
| "compiles_type i e = False"

text \<open>
  The calls of one ingestion, in their order: nothing (the table name could not be
  made), or the query for the table, then the creation of that table, which is there
  only if the query found no table, then the file and the rows. The database is the one
  the query is put to.
\<close>

fun row_event :: "event \<Rightarrow> bool" where
  "row_event (InsertRow n flds) = True"
| "row_event (FileWrite path content) = True"
| "row_event e = False"

fun ingest_shape :: "'db env \<Rightarrow> 'db \<Rightarrow> event list \<Rightarrow> bool" where
  "ingest_shape env db [] = True"
| "ingest_shape env db (TableExists n # CreateTable n' cols # evs) =
     (n' = n \<and> \<not> table_exists env db n \<and> list_all row_event evs)"
| "ingest_shape env db (TableExists n # evs) = list_all row_event evs"
| "ingest_shape env db evs = False"

text \<open>
  An entry holds a compiled pattern; and the invariant of the cache: no type has been
  compiled twice, and a type that has been compiled holds its compiled pattern.
\<close>

definition cached :: "csv_type \<Rightarrow> bool" where
  "cached ct = (case check ct of None \<Rightarrow> False | Some chk \<Rightarrow> subject_regex_compiled chk \<noteq> None)"

definition compile_count :: "nat \<Rightarrow> event list \<Rightarrow> nat" where
  "compile_count i evs = length (filter (compiles_type i) evs)"

definition compile_inv :: "csv_type list \<Rightarrow> event list \<Rightarrow> bool" where
  "compile_inv types evs =
     (\<forall>i. compile_count i evs \<le> 1 \<and>
          (1 \<le> compile_count i evs \<longrightarrow> i < length types \<and> cached (types ! i)))"

text \<open>The calls of a whole run of \<open>process_emails\<close>.\<close>

definition run_events ::
    "'db env \<Rightarrow> 'db world \<Rightarrow> csv_type list \<Rightarrow> message list \<Rightarrow> event list" where
  "run_events env w types msgs =
     new_events w (snd (snd (process_emails env w (Some types) msgs)))"

text \<open>
  A column is skipped for a row: the row lacks its CSV name, or its details lack the
  type, or the type is \<^verbatim>\<open>datetime\<close> and the details lack the format.
\<close>

definition skipped :: "csv_row \<Rightarrow> string \<times> string \<times> column_details \<Rightarrow> bool" where
  "skipped row col =
     (case col of (csv_name, field_name, details) \<Rightarrow>
        row csv_name = None \<or> item_type details = None \<or>
        (item_type details = Some ''datetime'' \<and> csv_format details = None))"

text \<open>
  A column raises for a row: it is a \<^verbatim>\<open>datetime\<close> column with a format, the row has
  its CSV name, and the text does not convert.
\<close>

definition raises :: "csv_row \<Rightarrow> string \<times> string \<times> column_details \<Rightarrow> bool" where
  "raises row col =
     (case col of (csv_name, field_name, details) \<Rightarrow>
        (case row csv_name of
           None \<Rightarrow> False
         | Some v \<Rightarrow>
             item_type details = Some ''datetime'' \<and>
             (case csv_format details of
                None \<Rightarrow> False
              | Some f \<Rightarrow> isl (strptime v (strip f)))))"

text \<open>
  The value the coerced row holds for a column, by the specification of the row
  coercer: none for a column that is skipped, the date and time that the text converts
  to for a \<^verbatim>\<open>datetime\<close> column, and the text of the record unchanged for a column of
  any other type.
\<close>

definition stored_value :: "csv_row \<Rightarrow> string \<times> string \<times> column_details \<Rightarrow> pyval option" where
  "stored_value row col =
     (case col of (csv_name, field_name, details) \<Rightarrow>
        if skipped row col then None
        else if item_type details = Some ''datetime'' then
          (case strptime (the (row csv_name)) (strip (the (csv_format details))) of
             Inl e \<Rightarrow> None
           | Inr dt \<Rightarrow> Some (DateTime dt))
        else Some (Str (the (row csv_name))))"

text \<open>
  A name a replacement field can hold in the modelled fragment of \<^verbatim>\<open>format\<close>: not
  empty, not a number, without the characters that start an attribute, an index, a
  conversion or a format specification, and without braces.
\<close>

definition plain_name :: "string \<Rightarrow> bool" where
  "plain_name n =
     (n \<noteq> [] \<and> list_all (\<lambda>c. c \<notin> set ''.[!:{}'') n \<and> \<not> list_all (\<lambda>c. c \<in> set ''0123456789'') n)"

subsection \<open>An instance: the scenario of the specification\<close>

text \<open>
  The sender \<^verbatim>\<open>ops@carrier.example\<close>, the subject \<^verbatim>\<open>Voyage Report V123\<close>, a pattern
  that captures \<^verbatim>\<open>voyage_id\<close> and the table template \<^verbatim>\<open>voyage_{voyage_id}\<close>, with
  stand-ins for the collaborators: headers that are bare addresses, a compiler that
  knows two patterns, a file system that takes every file, a reader that knows two CSV texts, and a database that is a
  list of tables with their rows.
\<close>

definition literal :: "string \<Rightarrow> regex" where
  "literal s = foldr (\<lambda>c r. Seq (Lit c) r) s Eps"

definition voyage_rx :: regex where
  "voyage_rx = Seq (literal ''Voyage Report V'')
                   (Named ''voyage_id'' (Seq (OneOf digits) (Star (OneOf digits))))"

definition voyage_csv :: string where
  "voyage_csv = ''date,temp,ship''"

definition voyage_rows :: "csv_row list" where
  "voyage_rows =
     [[''date'' \<mapsto> ''2024-03-01'', ''temp'' \<mapsto> ''4.5'', ''note'' \<mapsto> ''calm'',
       ''logged'' \<mapsto> ''noon'', ''ship'' \<mapsto> ''AA''],
      [''ship'' \<mapsto> ''AA'']]"

text \<open>
  A second CSV text: its first row has a date that does not conform to the format, its
  second row is the first row of the other text.
\<close>

definition bad_row :: csv_row where
  "bad_row = [''date'' \<mapsto> ''not-a-date'', ''temp'' \<mapsto> ''4.5'']"

definition bad_csv :: string where
  "bad_csv = ''date,temp''"

type_synonym tables = "(string \<times> fields list) list"

definition voyage_env :: "tables env" where
  "voyage_env =
     \<lparr>parseaddr = (\<lambda>h. ([], h)),
      re_compile = (\<lambda>p. if p = ''Voyage Report V(?P<voyage_id>[0-9]+)'' then Inr voyage_rx
                         else if p = ''Weather'' then Inr (literal ''Weather'')
                         else Inl ReError),
      CSV_FOLDER = ''/data/csv'',
      write_file = (\<lambda>path content. None),
      csv_rows = (\<lambda>content. if content = voyage_csv then voyage_rows
                            else if content = bad_csv then [bad_row, hd voyage_rows]
                            else []),
      table_exists = (\<lambda>db n. map_of db n \<noteq> None),
      create_table = (\<lambda>db n cols. Inr (db @ [(n, [])])),
      insert_row = (\<lambda>db n flds.
                     case map_of db n of
                       None \<Rightarrow> Inl StorageError
                     | Some rows \<Rightarrow> Inr (AList.update n (rows @ [flds]) db))\<rparr>"

definition date_details :: column_details where
  "date_details =
     \<lparr>field = Some ''obs_date'', item_type = Some ''datetime'', csv_format = Some ''%Y-%m-%d''\<rparr>"

definition voyage_columns :: columns where
  "voyage_columns =
     [(''date'', date_details),
      (''temp'', \<lparr>field = None, item_type = Some ''float'', csv_format = None\<rparr>),
      (''note'', \<lparr>field = None, item_type = None, csv_format = None\<rparr>),
      (''logged'', \<lparr>field = None, item_type = Some ''datetime'', csv_format = None\<rparr>)]"

definition voyage_check :: check where
  "voyage_check =
     \<lparr>required_from = Some ''ops@carrier.example'',
      subject_regex = Some [''Voyage Report V'', ''(?P<voyage_id>[0-9]+)''],
      subject_regex_compiled = None\<rparr>"

definition voyage_type :: csv_type where
  "voyage_type =
     \<lparr>check = Some voyage_check,
      save_table = Some \<lparr>file_name_format = Some ''voyage_{voyage_id}''\<rparr>,
      load_csv = Some \<lparr>columns = Some voyage_columns\<rparr>,
      save_csv = Some \<lparr>file_name_format = Some '' {voyage_id}.csv ''\<rparr>\<rparr>"

definition voyage_message :: message where
  "voyage_message =
     \<lparr>From = ''ops@carrier.example'', Subject = ''Voyage Report V123'', payload = voyage_csv\<rparr>"

definition empty_world :: "tables world" where
  "empty_world = \<lparr>database = [], trace = []\<rparr>"

text \<open>
  Two more types for the same list: one of another sender, and one that accepts the
  same messages as \<open>voyage_type\<close> but names another table.
\<close>

definition weather_type :: csv_type where
  "weather_type =
     voyage_type\<lparr>check := Some \<lparr>required_from = Some ''met@station.example'',
                                   subject_regex = Some [''Weather''],
                                   subject_regex_compiled = None\<rparr>\<rparr>"

definition archive_type :: csv_type where
  "archive_type = voyage_type\<lparr>save_table := Some \<lparr>file_name_format = Some ''archive_{voyage_id}''\<rparr>\<rparr>"



text \<open>A type whose file template names a value its pattern does not capture.\<close>

definition unsaved_type :: csv_type where
  "unsaved_type = voyage_type\<lparr>save_csv := Some \<lparr>file_name_format = Some ''{ship}_{voyage_id}.csv''\<rparr>\<rparr>"

text \<open>
  The parser of the scenario and a world in which its table is there.
\<close>

definition voyage_parser :: parser where
  "voyage_parser =
     \<lparr>table_name = ''voyage_123'', save_file_path = None,
      csv_columns = map (\<lambda>(csv_name, details).
                          (csv_name, (case field details of None \<Rightarrow> csv_name | Some f \<Rightarrow> f), details))
                        voyage_columns\<rparr>"

definition stored_world :: "tables world" where
  "stored_world = \<lparr>database = [(''voyage_123'', [])], trace = []\<rparr>"


text \<open>The pattern of the format \<^verbatim>\<open>%Y-%m-%d\<close>.\<close>

definition iso_date_rx :: regex where
  "iso_date_rx = (case strptime_regex ''%Y-%m-%d'' of Inl e \<Rightarrow> Eps | Inr r \<Rightarrow> r)"

section \<open>Properties\<close>

subsection \<open>What \<open>rx_match\<close> accepts\<close>

lemma rx_iter_sound:
  assumes f: "\<And>st st'. st' \<in> set (f st) \<Longrightarrow> \<exists>p. snd st = p @ snd st' \<and> p \<in> A"
  shows "st' \<in> set (rx_iter n f st) \<Longrightarrow> \<exists>p. snd st = p @ snd st' \<and> p \<in> star A"
proof (induction n arbitrary: st)
  case 0
  then have "st' = st" by simp
  then show ?case using star_empty by auto
next
  case (Suc n)
  show ?case
  proof (cases "st' = st")
    case True
    then show ?thesis using star_empty by auto
  next
    case False
    with Suc.prems have "\<exists>st1 \<in> set (f st).
        st' \<in> set (if length (snd st1) < length (snd st) then rx_iter n f st1 else [st1])"
      by (fastforce split: if_splits)
    then obtain st1 where st1: "st1 \<in> set (f st)"
      and in1: "st' \<in> set (if length (snd st1) < length (snd st) then rx_iter n f st1 else [st1])"
      by blast
    from f [OF st1] obtain p1 where p1: "snd st = p1 @ snd st1" "p1 \<in> A" by blast
    show ?thesis
    proof (cases "length (snd st1) < length (snd st)")
      case True
      with in1 have "st' \<in> set (rx_iter n f st1)" by simp
      from Suc.IH [OF this] obtain p2 where p2: "snd st1 = p2 @ snd st'" "p2 \<in> star A" by blast
      have "snd st = (p1 @ p2) @ snd st'" using p1 p2 by simp
      moreover have "p1 @ p2 \<in> star A" using p1 p2 by (blast intro: star_step)
      ultimately show ?thesis by blast
    next
      case False
      with in1 have "st' = st1" by simp
      moreover have "p1 @ [] \<in> star A" using p1 by (blast intro: star_step star_empty)
      ultimately show ?thesis using p1 by auto
    qed
  qed
qed

lemma rx_run_sound:
  "st' \<in> set (rx_run r st) \<Longrightarrow> \<exists>p. snd st = p @ snd st' \<and> p \<in> lang r"
proof (induction r arbitrary: st st')
  case Eps
  then show ?case by simp
next
  case (Lit c)
  then show ?case by (auto split: list.splits if_splits)
next
  case (OneOf cs)
  then show ?case
  proof (cases "snd st")
    case Nil
    with OneOf show ?thesis by simp
  next
    case (Cons x xs)
    with OneOf have "x \<in> set cs" "snd st' = xs" by (auto split: if_splits)
    with Cons have "snd st = [x] @ snd st' \<and> [x] \<in> lang (OneOf cs)" by simp
    then show ?thesis by blast
  qed
next
  case (Seq a b)
  from Seq.prems obtain st1 where st1: "st1 \<in> set (rx_run a st)" and st2: "st' \<in> set (rx_run b st1)"
    by auto
  from Seq.IH(1) [OF st1] obtain p1 where p1: "snd st = p1 @ snd st1" "p1 \<in> lang a" by blast
  from Seq.IH(2) [OF st2] obtain p2 where p2: "snd st1 = p2 @ snd st'" "p2 \<in> lang b" by blast
  have "snd st = (p1 @ p2) @ snd st'" using p1 p2 by simp
  moreover have "p1 @ p2 \<in> lang (Seq a b)" using p1 p2 by auto
  ultimately show ?case by blast
next
  case (Alt a b)
  from Alt.prems have "st' \<in> set (rx_run a st) \<or> st' \<in> set (rx_run b st)" by simp
  then show ?case using Alt.IH(1) [of st' st] Alt.IH(2) [of st' st] by auto
next
  case (Star a)
  from Star.prems have "st' \<in> set (rx_iter (Suc (length (snd st))) (rx_run a) st)" by simp
  then have "\<exists>p. snd st = p @ snd st' \<and> p \<in> star (lang a)"
    by (rule rx_iter_sound [rotated]) (rule Star.IH)
  then show ?case by simp
next
  case (Named n a)
  from Named.prems obtain st1 where st1: "st1 \<in> set (rx_run a st)" and eq: "snd st' = snd st1"
    by auto
  from Named.IH [OF st1] show ?case using eq by simp
qed

lemma rx_iter_complete:
  assumes f: "\<And>p g rest. p \<in> A \<Longrightarrow> \<exists>g'. (g', rest) \<in> set (f (g, p @ rest))"
  shows "p \<in> star A \<Longrightarrow> length (p @ rest) < n \<Longrightarrow> \<exists>g'. (g', rest) \<in> set (rx_iter n f (g, p @ rest))"
proof (induction p arbitrary: n g rule: star.induct)
  case star_empty
  then obtain m where "n = Suc m" by (cases n) auto
  then show ?case by auto
next
  case (star_step u v)
  show ?case
  proof (cases "u = []")
    case True
    then show ?thesis using star_step.IH [OF _] star_step.prems by simp
  next
    case False
    from star_step.prems obtain m where n: "n = Suc m" by (cases n) auto
    from f [OF star_step.hyps(1)] obtain g1 where g1: "(g1, v @ rest) \<in> set (f (g, u @ v @ rest))"
      by blast
    have len: "length (v @ rest) < m" using star_step.prems False n by (cases u) auto
    from star_step.IH [OF len] obtain g' where g': "(g', rest) \<in> set (rx_iter m f (g1, v @ rest))"
      by blast
    have prog: "length (snd (g1, v @ rest)) < length (snd (g, u @ v @ rest))"
      using False by (cases u) auto
    have "(g', rest) \<in> set (rx_iter (Suc m) f (g, u @ v @ rest))"
      using g1 g' prog by (auto intro!: bexI [of _ "(g1, v @ rest)"])
    then show ?thesis using n by auto
  qed
qed

lemma rx_run_complete:
  "p \<in> lang r \<Longrightarrow> \<exists>g'. (g', rest) \<in> set (rx_run r (g, p @ rest))"
proof (induction r arbitrary: p g rest)
  case Eps
  then show ?case by simp
next
  case (Lit c)
  then show ?case by simp
next
  case (OneOf cs)
  then show ?case by auto
next
  case (Seq a b)
  from Seq.prems obtain u v where uv: "p = u @ v" "u \<in> lang a" "v \<in> lang b" by auto
  from Seq.IH(1) [OF uv(2)] obtain g1 where g1: "(g1, v @ rest) \<in> set (rx_run a (g, u @ v @ rest))"
    by blast
  from Seq.IH(2) [OF uv(3)] obtain g2 where g2: "(g2, rest) \<in> set (rx_run b (g1, v @ rest))"
    by blast
  show ?case using uv g1 g2 by (auto intro!: bexI [of _ "(g1, v @ rest)"])
next
  case (Alt a b)
  then show ?case by (auto dest: Alt.IH(1) Alt.IH(2))
next
  case (Star a)
  from Star.prems have "p \<in> star (lang a)" by simp
  then have "\<exists>g'. (g', rest) \<in> set (rx_iter (Suc (length (p @ rest))) (rx_run a) (g, p @ rest))"
    using rx_iter_complete [where f = "rx_run a" and A = "lang a" and p = p and rest = rest
        and n = "Suc (length (p @ rest))" and g = g] Star.IH by blast
  then show ?case by simp
next
  case (Named n a)
  from Named.prems have "p \<in> lang a" by simp
  from Named.IH [OF this] obtain g1 where g1: "(g1, rest) \<in> set (rx_run a (g, p @ rest))" by blast
  then show ?case by (force intro!: image_eqI [of _ _ "(g1, rest)"])
qed

lemma rx_match_iff: "rx_match r s \<noteq> None \<longleftrightarrow> (\<exists>p q. s = p @ q \<and> p \<in> lang r)"
proof
  assume "rx_match r s \<noteq> None"
  then obtain st where "st \<in> set (rx_run r (map (\<lambda>n. (n, None)) (remdups (group_names r)), s))"
    by (auto simp: rx_match_def rx_match_end_def split: list.splits)
  from rx_run_sound [OF this] show "\<exists>p q. s = p @ q \<and> p \<in> lang r" by auto
next
  assume "\<exists>p q. s = p @ q \<and> p \<in> lang r"
  then obtain p q where pq: "s = p @ q" "p \<in> lang r" by blast
  from rx_run_complete [OF pq(2)] obtain g' where
    "(g', q) \<in> set (rx_run r (map (\<lambda>n. (n, None)) (remdups (group_names r)), p @ q))" by blast
  then show "rx_match r s \<noteq> None"
    using pq by (auto simp: rx_match_def rx_match_end_def split: list.splits)
qed

subsection \<open>The loop over the types\<close>

lemma check_type_outcome:
  assumes "well_formed env ct"
  shows "fst (check_type env (email_from env msg) (Subject msg) i ct) =
           (if sender_matches env msg ct
            then (case subject_values env msg ct of None \<Rightarrow> Continue | Some g \<Rightarrow> Matched g)
            else Continue)"
  using assms
  by (auto simp: well_formed_def check_type_def sender_matches_def subject_values_def
        pattern_of_def match_subject_def split: option.splits sum.splits)

lemma check_type_forget:
  "forget_compiled (fst (snd (check_type env a s i ct))) = forget_compiled ct"
  by (auto simp: check_type_def forget_compiled_def split: option.splits sum.splits)

lemma check_type_events:
  "list_all is_compile (snd (snd (check_type env a s i ct)))"
  by (auto simp: check_type_def split: option.splits sum.splits)

lemma check_type_no_sender:
  assumes "well_formed env ct" "\<not> sender_matches env msg ct"
  shows "check_type env (email_from env msg) (Subject msg) i ct = (Continue, ct, [])"
  using assms
  by (auto simp: well_formed_def check_type_def sender_matches_def split: option.splits)

lemma types_loop_skip:
  assumes "\<forall>ct \<in> set pre. well_formed env ct \<and> \<not> accepts env msg ct"
  shows "\<exists>pre' w1. map forget_compiled pre' = map forget_compiled pre \<and>
           database w1 = database w \<and>
           (\<exists>evs. trace w1 = trace w @ evs \<and> list_all is_compile evs) \<and>
           (\<forall>rest. types_loop env msg (email_from env msg) passed (pre @ rest) w =
                   types_loop env msg (email_from env msg) (passed @ pre') rest w1)"
  using assms
proof (induction pre arbitrary: passed w)
  case Nil
  show ?case by (rule exI [of _ "[]"], rule exI [of _ w]) simp
next
  case (Cons ct pre)
  obtain oc ct' evs where ck: "check_type env (email_from env msg) (Subject msg) (length passed) ct = (oc, ct', evs)"
    by (cases "check_type env (email_from env msg) (Subject msg) (length passed) ct") auto
  from Cons.prems have wf: "well_formed env ct" and na: "\<not> accepts env msg ct" by auto
  have oc: "oc = Continue"
    using check_type_outcome [OF wf, of msg "length passed"] na ck
    by (auto simp: accepts_def split: if_splits option.splits)
  have fg: "forget_compiled ct' = forget_compiled ct"
    using check_type_forget [of env "email_from env msg" "Subject msg" "length passed" ct] ck by simp
  have ev: "list_all is_compile evs"
    using check_type_events [of env "email_from env msg" "Subject msg" "length passed" ct] ck by simp
  let ?w = "w\<lparr>trace := trace w @ evs\<rparr>"
  from Cons.prems have "\<forall>ct \<in> set pre. well_formed env ct \<and> \<not> accepts env msg ct" by simp
  from Cons.IH [OF this, where passed = "passed @ [ct']" and w = ?w]
  obtain pre' w1 evs1 where IH: "map forget_compiled pre' = map forget_compiled pre"
    "database w1 = database ?w" "trace w1 = trace ?w @ evs1" "list_all is_compile evs1"
    "\<forall>rest. types_loop env msg (email_from env msg) (passed @ [ct']) (pre @ rest) ?w =
            types_loop env msg (email_from env msg) ((passed @ [ct']) @ pre') rest w1"
    by blast
  show ?case
  proof (rule exI [of _ "ct' # pre'"], rule exI [of _ w1], intro conjI)
    show "map forget_compiled (ct' # pre') = map forget_compiled (ct # pre)" using fg IH(1) by simp
    show "database w1 = database w" using IH(2) by simp
    show "\<exists>evs. trace w1 = trace w @ evs \<and> list_all is_compile evs"
      using IH(3,4) ev by (intro exI [of _ "evs @ evs1"]) simp
    show "\<forall>rest. types_loop env msg (email_from env msg) passed ((ct # pre) @ rest) w =
            types_loop env msg (email_from env msg) (passed @ ct' # pre') rest w1"
      using IH(5) ck oc by simp
  qed
qed

lemma types_loop_match:
  assumes "sender_matches env msg t" "subject_values env msg t = Some g"
  shows "\<exists>t' w1. forget_compiled t' = forget_compiled t \<and> database w1 = database w \<and>
           (\<exists>evs. trace w1 = trace w @ evs \<and> list_all is_compile evs) \<and>
           (\<forall>post. types_loop env msg (email_from env msg) passed (t # post) w =
                    (fst (ingest_matched env msg t' g w1), passed @ t' # post,
                     snd (ingest_matched env msg t' g w1)))"
proof -
  obtain oc t' evs where ck: "check_type env (email_from env msg) (Subject msg) (length passed) t = (oc, t', evs)"
    by (cases "check_type env (email_from env msg) (Subject msg) (length passed) t") auto
  have wf: "well_formed env t" using assms
    by (auto simp: well_formed_def sender_matches_def subject_values_def split: option.splits sum.splits)
  have oc: "oc = Matched g"
    using check_type_outcome [OF wf, of msg "length passed"] assms ck by simp
  have fg: "forget_compiled t' = forget_compiled t"
    using check_type_forget [of env "email_from env msg" "Subject msg" "length passed" t] ck by simp
  have ev: "list_all is_compile evs"
    using check_type_events [of env "email_from env msg" "Subject msg" "length passed" t] ck by simp
  show ?thesis
  proof (rule exI [of _ t'], rule exI [of _ "w\<lparr>trace := trace w @ evs\<rparr>"], intro conjI)
    show "forget_compiled t' = forget_compiled t" by (rule fg)
    show "database (w\<lparr>trace := trace w @ evs\<rparr>) = database w" by simp
    show "\<exists>evs'. trace (w\<lparr>trace := trace w @ evs\<rparr>) = trace w @ evs' \<and> list_all is_compile evs'"
      using ev by auto
    show "\<forall>post. types_loop env msg (email_from env msg) passed (t # post) w =
                    (fst (ingest_matched env msg t' g (w\<lparr>trace := trace w @ evs\<rparr>)), passed @ t' # post,
                     snd (ingest_matched env msg t' g (w\<lparr>trace := trace w @ evs\<rparr>)))"
      using ck oc by (simp split: prod.splits)
  qed
qed

text \<open>
  C1. Let the list of types be \<open>pre @ t # post\<close>, where the types of \<open>pre\<close> are
  document types (each has a sender and a pattern that compiles) none of which accepts
  the message, and \<open>t\<close> accepts it: its sender check equals the from-address and its
  subject pattern matches the subject, extracting \<open>g\<close>. Then \<open>process_message\<close> hands \<open>t\<close> and
  \<open>g\<close> to the ingestion: up to the patterns the loop compiled and stored on its way
  (in the types \<open>pre'\<close>, \<open>t'\<close> and in the trace of \<open>w1\<close>), the result is the result of
  ingesting \<open>t\<close>. The types \<open>post\<close> are returned as they were and have no part in the
  result, whatever they are: the first accepting type wins.
\<close>

theorem first_match_wins:
  assumes "\<forall>ct \<in> set pre. well_formed env ct \<and> \<not> accepts env msg ct"
      and "sender_matches env msg t"
      and "subject_values env msg t = Some g"
  shows "\<exists>pre' t' w1.
           map forget_compiled pre' = map forget_compiled pre \<and>
           forget_compiled t' = forget_compiled t \<and>
           database w1 = database w \<and>
           (\<exists>evs. trace w1 = trace w @ evs \<and> list_all is_compile evs) \<and>
           (\<forall>post. process_message env w msg (pre @ t # post) =
                    (fst (ingest_matched env msg t' g w1), pre' @ t' # post,
                     snd (ingest_matched env msg t' g w1)))"
proof -
  from types_loop_skip [OF assms(1), where w = w and passed = "[]"]
  obtain pre' w1 evs1 where A: "map forget_compiled pre' = map forget_compiled pre"
    "database w1 = database w" "trace w1 = trace w @ evs1" "list_all is_compile evs1"
    "\<forall>rest. types_loop env msg (email_from env msg) [] (pre @ rest) w =
            types_loop env msg (email_from env msg) ([] @ pre') rest w1"
    by blast
  from types_loop_match [OF assms(2,3), where w = w1 and passed = "[] @ pre'"]
  obtain t' w2 evs2 where B: "forget_compiled t' = forget_compiled t"
    "database w2 = database w1" "trace w2 = trace w1 @ evs2" "list_all is_compile evs2"
    "\<forall>post. types_loop env msg (email_from env msg) ([] @ pre') (t # post) w1 =
                    (fst (ingest_matched env msg t' g w2), ([] @ pre') @ t' # post,
                     snd (ingest_matched env msg t' g w2))"
    by blast
  show ?thesis
  proof (rule exI [of _ pre'], rule exI [of _ t'], rule exI [of _ w2], intro conjI)
    show "map forget_compiled pre' = map forget_compiled pre" by (rule A(1))
    show "forget_compiled t' = forget_compiled t" by (rule B(1))
    show "database w2 = database w" using A(2) B(2) by simp
    show "\<exists>evs. trace w2 = trace w @ evs \<and> list_all is_compile evs"
      using A(3,4) B(3,4) by (intro exI [of _ "evs1 @ evs2"]) simp
    show "\<forall>post. process_message env w msg (pre @ t # post) =
                    (fst (ingest_matched env msg t' g w2), pre' @ t' # post,
                     snd (ingest_matched env msg t' g w2))"
      using A(5) B(5) by (simp add: process_message_def)
  qed
qed

theorem first_match_wins_witness:
  "\<exists>pre' t' w1.
     map forget_compiled pre' = map forget_compiled [weather_type] \<and>
     forget_compiled t' = forget_compiled voyage_type \<and>
     database w1 = database empty_world \<and>
     (\<exists>evs. trace w1 = trace empty_world @ evs \<and> list_all is_compile evs) \<and>
     (\<forall>post. process_message voyage_env empty_world voyage_message
                ([weather_type] @ voyage_type # post) =
              (fst (ingest_matched voyage_env voyage_message t' [(''voyage_id'', Some ''123'')] w1),
               pre' @ t' # post,
               snd (ingest_matched voyage_env voyage_message t' [(''voyage_id'', Some ''123'')] w1)))"
proof -
  have h1: "\<forall>ct \<in> set [weather_type].
              well_formed voyage_env ct \<and> \<not> accepts voyage_env voyage_message ct"
    by code_simp
  have h2: "sender_matches voyage_env voyage_message voyage_type"
    by code_simp
  have h3: "subject_values voyage_env voyage_message voyage_type = Some [(''voyage_id'', Some ''123'')]"
    by code_simp
  show ?thesis by (rule first_match_wins [OF h1 h2 h3])
qed

lemma order_decides_example:
  "new_events empty_world
     (snd (snd (process_message voyage_env empty_world voyage_message [voyage_type, archive_type])))
     ! 1 = TableExists ''voyage_123''"
  "new_events empty_world
     (snd (snd (process_message voyage_env empty_world voyage_message [archive_type, voyage_type])))
     ! 1 = TableExists ''archive_123''"
  by code_simp+

lemma types_loop_no_sender:
  assumes "\<forall>ct \<in> set types. well_formed env ct \<and> \<not> sender_matches env msg ct"
  shows "types_loop env msg (email_from env msg) passed types w = (Inr False, passed @ types, w)"
  using assms
proof (induction types arbitrary: passed w)
  case Nil
  show ?case by simp
next
  case (Cons ct types)
  then have ck: "check_type env (email_from env msg) (Subject msg) (length passed) ct = (Continue, ct, [])"
    by (simp add: check_type_no_sender)
  from Cons.prems have "\<forall>ct \<in> set types. well_formed env ct \<and> \<not> sender_matches env msg ct" by simp
  from Cons.IH [OF this, where passed = "passed @ [ct]" and w = w] show ?case
    using ck by simp
qed

text \<open>
  C6. When the types of the list are document types (each has a sender and a pattern
  that compiles) and none of them accepts the message, \<open>process_message\<close> returns
  \<^verbatim>\<open>False\<close> and raises nothing; the database is the one it was given, and the only
  calls added to the trace are compilations of patterns: no \<^verbatim>\<open>table_exists\<close>, no
  \<^verbatim>\<open>create_table\<close>, no \<^verbatim>\<open>insert_row\<close> and no file. The types are the ones given, up
  to the compiled patterns stored in them. When every sender check fails, nothing at
  all changes.
\<close>

theorem no_match_returns_false:
  assumes "\<forall>ct \<in> set types. well_formed env ct \<and> \<not> accepts env msg ct"
  shows "returned env w msg types = Inr False \<and>
         database (world_after env w msg types) = database w \<and>
         trace (world_after env w msg types) = trace w @ message_events env w msg types \<and>
         list_all is_compile (message_events env w msg types) \<and>
         map forget_compiled (types_after env w msg types) = map forget_compiled types \<and>
         ((\<forall>ct \<in> set types. \<not> sender_matches env msg ct) \<longrightarrow>
            process_message env w msg types = (Inr False, types, w))"
proof -
  from types_loop_skip [OF assms, where w = w and passed = "[]"]
  obtain pre' w1 evs where A: "map forget_compiled pre' = map forget_compiled types"
    "database w1 = database w" "trace w1 = trace w @ evs" "list_all is_compile evs"
    "\<forall>rest. types_loop env msg (email_from env msg) [] (types @ rest) w =
            types_loop env msg (email_from env msg) ([] @ pre') rest w1"
    by blast
  from A(5) have pm: "process_message env w msg types = (Inr False, pre', w1)"
    using spec [OF A(5), of "[]"] by (simp add: process_message_def)
  have sm: "(\<forall>ct \<in> set types. \<not> sender_matches env msg ct) \<longrightarrow>
            process_message env w msg types = (Inr False, types, w)"
  proof
    assume "\<forall>ct \<in> set types. \<not> sender_matches env msg ct"
    with assms have "\<forall>ct \<in> set types. well_formed env ct \<and> \<not> sender_matches env msg ct" by blast
    from types_loop_no_sender [OF this, where passed = "[]" and w = w]
    show "process_message env w msg types = (Inr False, types, w)"
      by (simp add: process_message_def)
  qed
  show ?thesis
    using pm A(1-4) sm
    by (simp add: returned_def world_after_def types_after_def message_events_def new_events_def)
qed

theorem no_match_returns_false_witness:
  "returned voyage_env empty_world voyage_message [weather_type] = Inr False \<and>
   database (world_after voyage_env empty_world voyage_message [weather_type]) = database empty_world \<and>
   trace (world_after voyage_env empty_world voyage_message [weather_type]) =
     trace empty_world @ message_events voyage_env empty_world voyage_message [weather_type] \<and>
   list_all is_compile (message_events voyage_env empty_world voyage_message [weather_type]) \<and>
   map forget_compiled (types_after voyage_env empty_world voyage_message [weather_type]) =
     map forget_compiled [weather_type] \<and>
   process_message voyage_env empty_world voyage_message [weather_type] =
     (Inr False, [weather_type], empty_world)"
proof -
  have h: "\<forall>ct \<in> set [weather_type].
             well_formed voyage_env ct \<and> \<not> accepts voyage_env voyage_message ct"
    by code_simp
  have s: "\<forall>ct \<in> set [weather_type]. \<not> sender_matches voyage_env voyage_message ct"
    by code_simp
  show ?thesis using no_match_returns_false [OF h, of empty_world] s by blast
qed

lemma ingest_matched_not_false: "fst (ingest_matched env msg ct g w) \<noteq> Inr False"
  by (auto simp: ingest_matched_def split: sum.splits prod.splits)

text \<open>
  C9. For a type whose sender check succeeds, with the pattern \<open>rx\<close>: the message is
  passed over (here: \<^verbatim>\<open>False\<close> is returned for the list of this one type) exactly when
  no prefix of the subject is a word of the pattern. So a subject that begins with a
  match is accepted whatever text follows the match, and a subject in which the pattern
  occurs only later is not.
\<close>

theorem subject_match_is_anchored_prefix_match:
  assumes "check ct = Some chk"
      and "required_from chk = Some (email_from env msg)"
      and "pattern_of env chk = Inr rx"
  shows "returned env w msg [ct] = Inr False \<longleftrightarrow>
           \<not> (\<exists>p. prefix p (Subject msg) \<and> p \<in> lang rx)"
proof -
  have wf: "well_formed env ct" using assms by (simp add: well_formed_def)
  have sm: "sender_matches env msg ct" using assms by (simp add: sender_matches_def)
  have sv: "subject_values env msg ct = rx_match rx (Subject msg)"
    using assms by (simp add: subject_values_def)
  have pre: "(\<exists>p. prefix p (Subject msg) \<and> p \<in> lang rx) \<longleftrightarrow> rx_match rx (Subject msg) \<noteq> None"
    unfolding rx_match_iff prefix_def by blast
  obtain oc ct' evs where ck: "check_type env (email_from env msg) (Subject msg) (length ([]::csv_type list)) ct = (oc, ct', evs)"
    by (cases "check_type env (email_from env msg) (Subject msg) (length ([]::csv_type list)) ct") auto
  have oc: "oc = (case rx_match rx (Subject msg) of None \<Rightarrow> Continue | Some g \<Rightarrow> Matched g)"
    using check_type_outcome [OF wf, of msg "length ([]::csv_type list)"] sm sv ck by simp
  show ?thesis
  proof (cases "rx_match rx (Subject msg)")
    case None
    then show ?thesis using pre ck oc by (simp add: returned_def process_message_def)
  next
    case (Some g)
    then show ?thesis using pre ck oc ingest_matched_not_false [of env msg ct' g "w\<lparr>trace := trace w @ evs\<rparr>"]
      by (auto simp: returned_def process_message_def split: prod.splits)
  qed
qed

theorem subject_match_is_anchored_prefix_match_witness:
  "returned voyage_env empty_world (voyage_message\<lparr>Subject := ''Re: Voyage Report V123''\<rparr>) [voyage_type]
     = Inr False \<and>
   \<not> (\<exists>p. prefix p (Subject (voyage_message\<lparr>Subject := ''Re: Voyage Report V123''\<rparr>)) \<and> p \<in> lang voyage_rx)"
proof -
  have h1: "check voyage_type = Some voyage_check"
    by (simp add: voyage_type_def)
  have h2: "required_from voyage_check
            = Some (email_from voyage_env (voyage_message\<lparr>Subject := ''Re: Voyage Report V123''\<rparr>))"
    by code_simp
  have h3: "pattern_of voyage_env voyage_check = Inr voyage_rx"
    by code_simp
  have r: "returned voyage_env empty_world (voyage_message\<lparr>Subject := ''Re: Voyage Report V123''\<rparr>) [voyage_type]
     = Inr False"
    by code_simp
  show ?thesis
    using subject_match_is_anchored_prefix_match [OF h1 h2 h3, of empty_world] r by blast
qed

lemma trailing_text_example:
  "returned voyage_env empty_world (voyage_message\<lparr>Subject := ''Voyage Report V123 (resend)''\<rparr>)
     [voyage_type] = Inr True"
  by code_simp

subsection \<open>The calls of an ingestion\<close>

lemma db_call_trace: "db_call w e r = (x, w') \<Longrightarrow> trace w' = trace w @ [e]"
  by (auto simp: db_call_def emit_def split: sum.splits)

lemma process_csv_row_trace:
  assumes "process_csv_row env self row w = (r, w')"
  shows "\<exists>evs. trace w' = trace w @ evs \<and> list_all row_event evs"
proof (cases "coerce_columns (csv_columns self) row []")
  case (Inl e)
  with assms have "w' = w" by (simp add: process_csv_row_def)
  then show ?thesis by simp
next
  case (Inr flds)
  with assms have "trace w' = trace w @ [InsertRow (table_name self) flds]"
    by (simp add: process_csv_row_def db_call_trace)
  then show ?thesis by simp
qed

lemma process_csv_rows_trace:
  "process_csv_rows env self rows w = (r, w') \<Longrightarrow>
     \<exists>evs. trace w' = trace w @ evs \<and> list_all row_event evs"
proof (induction rows arbitrary: w)
  case Nil
  then show ?case by simp
next
  case (Cons row rows)
  obtain r1 w1 where r1: "process_csv_row env self row w = (r1, w1)"
    by (cases "process_csv_row env self row w") auto
  from process_csv_row_trace [OF r1] obtain evs1 where
    e1: "trace w1 = trace w @ evs1" "list_all row_event evs1" by blast
  show ?case
  proof (cases r1)
    case (Inl e)
    with Cons.prems r1 have "w' = w1" by simp
    with e1 show ?thesis by blast
  next
    case (Inr u)
    with Cons.prems r1 have "process_csv_rows env self rows w1 = (r, w')" by simp
    from Cons.IH [OF this] obtain evs2 where
      e2: "trace w' = trace w1 @ evs2" "list_all row_event evs2" by blast
    have "trace w' = trace w @ (evs1 @ evs2) \<and> list_all row_event (evs1 @ evs2)"
      using e1 e2 by simp
    then show ?thesis by blast
  qed
qed

lemma process_csv_content_trace:
  assumes "process_csv_content env self content w = (r, w')"
  shows "\<exists>evs. trace w' = trace w @ evs \<and> list_all row_event evs"
proof (cases "save_file_path self")
  case None
  with assms show ?thesis
    by (simp add: process_csv_content_def CSVEmailParser_process_csv_content_def
        process_csv_rows_trace)
next
  case (Some path)
  show ?thesis
  proof (cases "write_file env path content")
    case e: (Some e)
    with assms Some have "w' = emit w (FileWrite path content)"
      by (simp add: process_csv_content_def)
    then have "trace w' = trace w @ [FileWrite path content] \<and>
               list_all row_event [FileWrite path content]"
      by (simp add: emit_def)
    then show ?thesis by blast
  next
    case None
    with assms Some have
      "process_csv_rows env self (csv_rows env content) (emit w (FileWrite path content)) = (r, w')"
      by (simp add: process_csv_content_def CSVEmailParser_process_csv_content_def)
    from process_csv_rows_trace [OF this] obtain evs where
      "trace w' = trace (emit w (FileWrite path content)) @ evs" "list_all row_event evs" by blast
    then have "trace w' = trace w @ (FileWrite path content # evs) \<and>
               list_all row_event (FileWrite path content # evs)"
      by (simp add: emit_def)
    then show ?thesis by blast
  qed
qed

lemma ensure_table_shape:
  assumes "ensure_table env ct n w = (r, w')"
  shows "database w' = database w \<and> trace w' = trace w @ [TableExists n] \<or>
         (\<not> table_exists env (database w) n \<and>
          (\<exists>cols. trace w' = trace w @ [TableExists n, CreateTable n cols]))"
  using assms
  by (auto simp: ensure_table_def Let_def emit_def db_call_def getitem_def
      split: if_splits option.splits sum.splits)

lemma ingest_shape_rows:
  "list_all row_event evs \<Longrightarrow> ingest_shape env db (TableExists n # evs)"
  by (cases "(env, db, TableExists n # evs)" rule: ingest_shape.cases) auto

lemma ingest_matched_trace:
  assumes "ingest_matched env msg ct g w = (r, w')"
  shows "\<exists>evs. trace w' = trace w @ evs \<and> ingest_shape env (database w) evs"
proof (cases "make_table_name ct g")
  case (Inl e)
  with assms have "w' = w" by (simp add: ingest_matched_def)
  then show ?thesis by simp
next
  case (Inr n)
  obtain r1 w1 where e1: "ensure_table env ct n w = (r1, w1)"
    by (cases "ensure_table env ct n w") auto
  have "\<exists>evs. trace w' = trace w1 @ evs \<and> list_all row_event evs"
  proof (cases r1)
    case (Inl e)
    with assms Inr e1 have "w' = w1" by (simp add: ingest_matched_def)
    then show ?thesis by simp
  next
    case r1: (Inr u)
    show ?thesis
    proof (cases "VoyageEmailParser_init env ct n g")
      case (Inl e)
      with assms Inr e1 r1 have "w' = w1" by (simp add: ingest_matched_def)
      then show ?thesis by simp
    next
      case p: (Inr self)
      obtain r2 w2 where e2: "process_csv_content env self (payload msg) w1 = (r2, w2)"
        by (cases "process_csv_content env self (payload msg) w1") auto
      with assms Inr e1 r1 p have "w' = w2"
        by (auto simp: ingest_matched_def CSVEmailParser_process_message_def split: sum.splits)
      with process_csv_content_trace [OF e2] show ?thesis by simp
    qed
  qed
  then obtain evs where evs: "trace w' = trace w1 @ evs" "list_all row_event evs" by blast
  from ensure_table_shape [OF e1] show ?thesis
  proof
    assume "database w1 = database w \<and> trace w1 = trace w @ [TableExists n]"
    then have "trace w' = trace w @ (TableExists n # evs)" using evs by simp
    moreover have "ingest_shape env (database w) (TableExists n # evs)"
      using evs(2) by (rule ingest_shape_rows)
    ultimately show ?thesis by blast
  next
    assume "\<not> table_exists env (database w) n \<and>
          (\<exists>cols. trace w1 = trace w @ [TableExists n, CreateTable n cols])"
    then obtain cols where c: "\<not> table_exists env (database w) n"
      "trace w1 = trace w @ [TableExists n, CreateTable n cols]" by blast
    then have "trace w' = trace w @ (TableExists n # CreateTable n cols # evs)" using evs by simp
    moreover have "ingest_shape env (database w) (TableExists n # CreateTable n cols # evs)"
      using evs(2) c(1) by simp
    ultimately show ?thesis by blast
  qed
qed

lemma types_loop_trace:
  "types_loop env msg a passed types w = (r, types', w') \<Longrightarrow>
     \<exists>cevs ievs. trace w' = trace w @ cevs @ ievs \<and> list_all is_compile cevs \<and>
                 ingest_shape env (database w) ievs"
proof (induction types arbitrary: passed w)
  case Nil
  then have "trace w' = trace w @ [] @ []" by simp
  then show ?case by (intro exI [of _ "[]"]) simp
next
  case (Cons ct types)
  obtain oc ct' evs where ck: "check_type env a (Subject msg) (length passed) ct = (oc, ct', evs)"
    by (cases "check_type env a (Subject msg) (length passed) ct") auto
  have ev: "list_all is_compile evs"
    using check_type_events [of env a "Subject msg" "length passed" ct] ck by simp
  let ?w = "w\<lparr>trace := trace w @ evs\<rparr>"
  show ?case
  proof (cases oc)
    case (Raised e)
    with Cons.prems ck have "trace w' = trace w @ evs @ []" by auto
    with ev show ?thesis by (intro exI [of _ evs] exI [of _ "[]"]) simp
  next
    case Continue
    with Cons.prems ck have "types_loop env msg a (passed @ [ct']) types ?w = (r, types', w')" by simp
    from Cons.IH [OF this] obtain cevs ievs where
      "trace w' = trace ?w @ cevs @ ievs" "list_all is_compile cevs"
      "ingest_shape env (database ?w) ievs" by blast
    then have "trace w' = trace w @ (evs @ cevs) @ ievs \<and> list_all is_compile (evs @ cevs) \<and>
               ingest_shape env (database w) ievs" using ev by simp
    then show ?thesis by blast
  next
    case (Matched g)
    with Cons.prems ck have "ingest_matched env msg ct' g ?w = (r, w')"
      by (auto split: prod.splits)
    from ingest_matched_trace [OF this] obtain ievs where
      "trace w' = trace ?w @ ievs" "ingest_shape env (database ?w) ievs" by blast
    then have "trace w' = trace w @ evs @ ievs \<and> list_all is_compile evs \<and>
               ingest_shape env (database w) ievs" using ev by simp
    then show ?thesis by blast
  qed
qed

lemma message_events_shape:
  "\<exists>cevs ievs. message_events env w msg types = cevs @ ievs \<and> list_all is_compile cevs \<and>
                 ingest_shape env (database w) ievs"
proof -
  obtain r types' w' where pm: "process_message env w msg types = (r, types', w')"
    by (cases "process_message env w msg types") auto
  then have "types_loop env msg (email_from env msg) [] types w = (r, types', w')"
    by (simp add: process_message_def)
  from types_loop_trace [OF this] obtain cevs ievs where
    "trace w' = trace w @ cevs @ ievs" "list_all is_compile cevs"
    "ingest_shape env (database w) ievs" by blast
  then show ?thesis using pm
    by (auto simp: message_events_def world_after_def new_events_def)
qed

lemma compile_not_others:
  "list_all is_compile cevs \<Longrightarrow> TableExists n \<notin> set cevs \<and> CreateTable n cols \<notin> set cevs \<and>
     filter is_create cevs = []"
  by (induction cevs) (auto elim: is_compile.elims)

lemma row_event_not_others:
  "list_all row_event evs \<Longrightarrow> TableExists n \<notin> set evs \<and> CreateTable n cols \<notin> set evs \<and>
     filter is_create evs = [] \<and> filter is_compile evs = []"
  by (induction evs) (auto elim: row_event.elims)

lemma ingest_shape_cases:
  assumes "ingest_shape env db ievs"
  obtains "ievs = []"
  | n evs where "ievs = TableExists n # evs" "list_all row_event evs"
  | n cols evs where "ievs = TableExists n # CreateTable n cols # evs"
      "\<not> table_exists env db n" "list_all row_event evs"
  using assms
  by (cases "(env, db, ievs)" rule: ingest_shape.cases) auto

text \<open>
  C2. Among the calls \<open>process_message\<close> makes for a message, \<^verbatim>\<open>create_table\<close> is
  called for a name only when \<^verbatim>\<open>table_exists\<close> was asked for that name and the
  database it was given does not have the table. When the table asked for is there, as
  it is for a second message of the same type with the same extracted values, no
  \<^verbatim>\<open>create_table\<close> is called at all. No message makes more than one such call.
\<close>

theorem create_table_only_when_absent:
  "(CreateTable n cols \<in> set (message_events env w msg types) \<longrightarrow>
      \<not> table_exists env (database w) n \<and> TableExists n \<in> set (message_events env w msg types)) \<and>
   (TableExists n \<in> set (message_events env w msg types) \<and> table_exists env (database w) n \<longrightarrow>
      filter is_create (message_events env w msg types) = []) \<and>
   length (filter is_create (message_events env w msg types)) \<le> 1"
proof -
  from message_events_shape [of env w msg types] obtain cevs ievs where
    s: "message_events env w msg types = cevs @ ievs" "list_all is_compile cevs"
    "ingest_shape env (database w) ievs" by blast
  note c = compile_not_others [OF s(2)]
  from s(3) show ?thesis
  proof (cases rule: ingest_shape_cases)
    case 1
    then show ?thesis using s(1) c by auto
  next
    case (2 n' evs)
    then show ?thesis using s(1) c row_event_not_others [OF 2(2)] by auto
  next
    case (3 n' cols' evs)
    then show ?thesis using s(1) c row_event_not_others [OF 3(3)] by auto
  qed
qed

theorem create_table_only_when_absent_witness:
  "\<not> table_exists voyage_env (database empty_world) ''voyage_123'' \<and>
   TableExists ''voyage_123'' \<in> set (message_events voyage_env empty_world voyage_message [voyage_type]) \<and>
   filter is_create
     (message_events voyage_env
        (world_after voyage_env empty_world voyage_message [voyage_type]) voyage_message
        (types_after voyage_env empty_world voyage_message [voyage_type])) = [] \<and>
   length (filter is_create
     (message_events voyage_env empty_world voyage_message [voyage_type])) \<le> 1"
proof -
  have a: "CreateTable ''voyage_123'' voyage_columns
             \<in> set (message_events voyage_env empty_world voyage_message [voyage_type])"
    by code_simp
  have b: "TableExists ''voyage_123'' \<in> set
             (message_events voyage_env
                (world_after voyage_env empty_world voyage_message [voyage_type]) voyage_message
                (types_after voyage_env empty_world voyage_message [voyage_type])) \<and>
           table_exists voyage_env
             (database (world_after voyage_env empty_world voyage_message [voyage_type]))
             ''voyage_123''"
    by code_simp
  show ?thesis
    using a b
      create_table_only_when_absent [of "''voyage_123''" voyage_columns voyage_env empty_world
        voyage_message "[voyage_type]"]
      create_table_only_when_absent [of "''voyage_123''" voyage_columns voyage_env
        "world_after voyage_env empty_world voyage_message [voyage_type]" voyage_message
        "types_after voyage_env empty_world voyage_message [voyage_type]"]
    by blast
qed

subsection \<open>The cache of compiled patterns\<close>

lemma compile_count_append [simp]:
  "compile_count i (xs @ ys) = compile_count i xs + compile_count i ys"
  by (simp add: compile_count_def)

lemma compile_count_row_events:
  assumes "ingest_shape env db ievs"
  shows "compile_count i ievs = 0"
  using assms
proof (cases rule: ingest_shape_cases)
  case 1
  then show ?thesis by (simp add: compile_count_def)
next
  case (2 n evs)
  have "filter (compiles_type i) evs = []"
    using 2(2) by (induction evs) (auto elim: row_event.elims)
  with 2 show ?thesis by (simp add: compile_count_def)
next
  case (3 n cols evs)
  have "filter (compiles_type i) evs = []"
    using 3(3) by (induction evs) (auto elim: row_event.elims)
  with 3 show ?thesis by (simp add: compile_count_def)
qed

lemma check_type_step:
  assumes "check_type env a s j ct = (oc, ct', evs)"
  shows "(evs = [] \<and> ct' = ct) \<or>
         (\<not> cached ct \<and> (\<exists>p. evs = [ReCompile j p]) \<and>
          ((\<exists>e. oc = Raised e) \<and> ct' = ct \<or> cached ct'))"
  using assms
  by (auto simp: check_type_def cached_def split: option.splits sum.splits if_splits)

lemma compile_inv_step:
  assumes inv: "compile_inv types evs0"
      and j: "j < length types"
      and ck: "check_type env a s j (types ! j) = (oc, ct', evs)"
  shows "(\<forall>i. compile_count i (evs0 @ evs) \<le> 1) \<and>
         ((\<forall>e. oc \<noteq> Raised e) \<longrightarrow> compile_inv (types[j := ct']) (evs0 @ evs))"
proof -
  from check_type_step [OF ck] show ?thesis
  proof
    assume "evs = [] \<and> ct' = types ! j"
    then show ?thesis using inv by (simp add: compile_inv_def)
  next
    assume a: "\<not> cached (types ! j) \<and> (\<exists>p. evs = [ReCompile j p]) \<and>
          ((\<exists>e. oc = Raised e) \<and> ct' = types ! j \<or> cached ct')"
    then obtain p where p: "evs = [ReCompile j p]" by blast
    from a inv j have z: "compile_count j evs0 = 0"
      unfolding compile_inv_def by (metis One_nat_def Suc_leI not_gr_zero)
    have cnt: "\<And>i. compile_count i evs = (if i = j then 1 else 0)"
      using p by (simp add: compile_count_def)
    have le: "\<forall>i. compile_count i (evs0 @ evs) \<le> 1"
      using inv z cnt by (auto simp: compile_inv_def)
    have "compile_inv (types[j := ct']) (evs0 @ evs)" if "\<forall>e. oc \<noteq> Raised e"
    proof -
      from that a have c: "cached ct'" by blast
      show ?thesis
        unfolding compile_inv_def
      proof (intro allI conjI impI)
        fix i show "compile_count i (evs0 @ evs) \<le> 1" using le by blast
      next
        fix i assume "1 \<le> compile_count i (evs0 @ evs)"
        then show "i < length (types[j := ct'])"
          using inv cnt j z by (cases "i = j") (auto simp: compile_inv_def)
      next
        fix i assume "1 \<le> compile_count i (evs0 @ evs)"
        then show "cached (types[j := ct'] ! i)"
          using inv cnt j z c by (cases "i = j") (auto simp: compile_inv_def)
      qed
    qed
    with le show ?thesis by blast
  qed
qed

lemma compile_inv_ingest:
  "compile_inv types evs0 \<Longrightarrow> ingest_shape env db ievs \<Longrightarrow> compile_inv types (evs0 @ ievs)"
  by (simp add: compile_inv_def compile_count_row_events)

lemma types_loop_compile_inv:
  assumes "compile_inv (passed @ rest) evs0"
      and "trace w = base @ evs0"
      and "types_loop env msg a passed rest w = (r, types', w')"
  shows "\<exists>evs1. trace w' = base @ evs1 \<and> (\<forall>i. compile_count i evs1 \<le> 1) \<and>
           (\<not> isl r \<longrightarrow> compile_inv types' evs1)"
  using assms
proof (induction rest arbitrary: passed w evs0)
  case Nil
  then show ?case by (auto simp: compile_inv_def)
next
  case (Cons ct rest)
  obtain oc ct' evs where ck: "check_type env a (Subject msg) (length passed) ct = (oc, ct', evs)"
    by (cases "check_type env a (Subject msg) (length passed) ct") auto
  let ?w = "w\<lparr>trace := trace w @ evs\<rparr>"
  have nth: "(passed @ ct # rest) ! length passed = ct" by simp
  have upd: "(passed @ ct # rest)[length passed := ct'] = passed @ ct' # rest" by simp
  from compile_inv_step [OF Cons.prems(1), of "length passed" env a "Subject msg" oc ct' evs] ck
  have st: "\<forall>i. compile_count i (evs0 @ evs) \<le> 1"
    "(\<forall>e. oc \<noteq> Raised e) \<longrightarrow> compile_inv (passed @ ct' # rest) (evs0 @ evs)"
    by (simp_all add: nth upd)
  have tr: "trace ?w = base @ (evs0 @ evs)" using Cons.prems(2) by simp
  show ?case
  proof (cases oc)
    case (Raised e)
    with Cons.prems(3) ck have "w' = ?w" by auto
    with tr st(1) Raised Cons.prems(3) ck show ?thesis by (intro exI [of _ "evs0 @ evs"]) auto
  next
    case Continue
    with Cons.prems(3) ck have tl: "types_loop env msg a (passed @ [ct']) rest ?w = (r, types', w')"
      by simp
    from st(2) Continue have "compile_inv ((passed @ [ct']) @ rest) (evs0 @ evs)" by simp
    from Cons.IH [OF this tr tl] show ?thesis .
  next
    case (Matched g)
    with Cons.prems(3) ck have im: "ingest_matched env msg ct' g ?w = (r, w')"
      and ty: "types' = passed @ ct' # rest"
      by (auto split: prod.splits)
    from ingest_matched_trace [OF im] obtain ievs where
      ie: "trace w' = trace ?w @ ievs" "ingest_shape env (database ?w) ievs" by blast
    from st(2) Matched have "compile_inv (passed @ ct' # rest) (evs0 @ evs)" by simp
    from compile_inv_ingest [OF this ie(2)] have ci: "compile_inv types' ((evs0 @ evs) @ ievs)"
      using ty by simp
    have "trace w' = base @ ((evs0 @ evs) @ ievs)" using ie(1) tr by simp
    with ci show ?thesis by (intro exI [of _ "(evs0 @ evs) @ ievs"]) (auto simp: compile_inv_def)
  qed
qed

lemma messages_loop_compile_inv:
  assumes "compile_inv types evs0"
      and "trace w = base @ evs0"
      and "messages_loop env w types msgs = (r, types', w')"
  shows "\<exists>evs1. trace w' = base @ evs1 \<and> (\<forall>i. compile_count i evs1 \<le> 1)"
  using assms
proof (induction msgs arbitrary: w types evs0)
  case Nil
  then show ?case by (auto simp: compile_inv_def)
next
  case (Cons msg msgs)
  obtain r1 types1 w1 where pm: "process_message env w msg types = (r1, types1, w1)"
    by (cases "process_message env w msg types") auto
  then have tl: "types_loop env msg (email_from env msg) [] types w = (r1, types1, w1)"
    by (simp add: process_message_def)
  from Cons.prems(1) have "compile_inv ([] @ types) evs0" by simp
  from types_loop_compile_inv [OF this Cons.prems(2) tl] obtain evs1 where
    e1: "trace w1 = base @ evs1" "\<forall>i. compile_count i evs1 \<le> 1"
    "\<not> isl r1 \<longrightarrow> compile_inv types1 evs1" by blast
  show ?case
  proof (cases r1)
    case (Inl e)
    with Cons.prems(3) pm have "w' = w1" by simp
    with e1 show ?thesis by blast
  next
    case (Inr b)
    with Cons.prems(3) pm have ml: "messages_loop env w1 types1 msgs = (r, types', w')" by simp
    from e1(3) Inr have "compile_inv types1 evs1" by simp
    from Cons.IH [OF this e1(1) ml] show ?thesis .
  qed
qed

text \<open>
  C7. In a run of \<open>process_emails\<close>, whatever the messages, \<^verbatim>\<open>re.compile\<close> is called at
  most once for each type of the list. On a successful sender check of a type that
  holds no compiled pattern, the joined text is compiled and the compiled pattern is
  stored in the type's entry; a type that holds a compiled pattern is matched with it,
  with no call of \<^verbatim>\<open>re.compile\<close> and no change of the entry.
\<close>

theorem pattern_compiled_at_most_once:
  "compile_count i (run_events env w types msgs) \<le> 1 \<and>
   (check ct = Some chk \<and> required_from chk = Some a \<and> subject_regex_compiled chk = None \<and>
    subject_regex chk = Some parts \<and> re_compile env (concat parts) = Inr rx \<longrightarrow>
      check_type env a s j ct =
        (match_subject rx s, ct\<lparr>check := Some (chk\<lparr>subject_regex_compiled := Some rx\<rparr>)\<rparr>,
         [ReCompile j (concat parts)])) \<and>
   (check ct = Some chk \<and> required_from chk = Some a \<and> subject_regex_compiled chk = Some rx \<longrightarrow>
      check_type env a s j ct = (match_subject rx s, ct, []))"
proof -
  obtain r types' w' where ml: "messages_loop env w types msgs = (r, types', w')"
    by (cases "messages_loop env w types msgs") auto
  have "compile_inv types []" by (simp add: compile_inv_def compile_count_def)
  from messages_loop_compile_inv [OF this _ ml, of "trace w"] obtain evs1 where
    "trace w' = trace w @ evs1" "\<forall>i. compile_count i evs1 \<le> 1" by auto
  then have "compile_count i (run_events env w types msgs) \<le> 1"
    using ml by (simp add: run_events_def process_emails_def new_events_def)
  then show ?thesis by (auto simp: check_type_def)
qed

theorem pattern_compiled_at_most_once_witness:
  "compile_count 0 (run_events voyage_env empty_world [voyage_type] [voyage_message, voyage_message]) \<le> 1 \<and>
   check_type voyage_env ''ops@carrier.example'' ''Voyage Report V123'' 0 voyage_type =
     (match_subject voyage_rx ''Voyage Report V123'',
      voyage_type\<lparr>check := Some (voyage_check\<lparr>subject_regex_compiled := Some voyage_rx\<rparr>)\<rparr>,
      [ReCompile 0 (concat [''Voyage Report V'', ''(?P<voyage_id>[0-9]+)''])]) \<and>
   check_type voyage_env ''ops@carrier.example'' ''Voyage Report V123'' 0
       (voyage_type\<lparr>check := Some (voyage_check\<lparr>subject_regex_compiled := Some voyage_rx\<rparr>)\<rparr>) =
     (match_subject voyage_rx ''Voyage Report V123'',
      voyage_type\<lparr>check := Some (voyage_check\<lparr>subject_regex_compiled := Some voyage_rx\<rparr>)\<rparr>,
      [])"
proof -
  have h1: "check voyage_type = Some voyage_check \<and>
            required_from voyage_check = Some ''ops@carrier.example'' \<and>
            subject_regex_compiled voyage_check = None \<and>
            subject_regex voyage_check = Some [''Voyage Report V'', ''(?P<voyage_id>[0-9]+)''] \<and>
            re_compile voyage_env (concat [''Voyage Report V'', ''(?P<voyage_id>[0-9]+)'']) = Inr voyage_rx"
    by (simp add: voyage_type_def voyage_check_def voyage_env_def)
  have h2: "check (voyage_type\<lparr>check := Some (voyage_check\<lparr>subject_regex_compiled := Some voyage_rx\<rparr>)\<rparr>)
              = Some (voyage_check\<lparr>subject_regex_compiled := Some voyage_rx\<rparr>) \<and>
            required_from (voyage_check\<lparr>subject_regex_compiled := Some voyage_rx\<rparr>)
              = Some ''ops@carrier.example'' \<and>
            subject_regex_compiled (voyage_check\<lparr>subject_regex_compiled := Some voyage_rx\<rparr>)
              = Some voyage_rx"
    by (simp add: voyage_check_def)
  show ?thesis
    using h1 h2
      pattern_compiled_at_most_once [of 0 voyage_env empty_world "[voyage_type]"
        "[voyage_message, voyage_message]" voyage_type voyage_check "''ops@carrier.example''"
        "[''Voyage Report V'', ''(?P<voyage_id>[0-9]+)'']" voyage_rx "''Voyage Report V123''" 0]
      pattern_compiled_at_most_once [of 0 voyage_env empty_world "[voyage_type]"
        "[voyage_message, voyage_message]"
        "voyage_type\<lparr>check := Some (voyage_check\<lparr>subject_regex_compiled := Some voyage_rx\<rparr>)\<rparr>"
        "voyage_check\<lparr>subject_regex_compiled := Some voyage_rx\<rparr>" "''ops@carrier.example''"
        "[''Voyage Report V'', ''(?P<voyage_id>[0-9]+)'']" voyage_rx "''Voyage Report V123''" 0]
    by blast
qed

lemma compiled_once_example:
  "compile_count 0 (run_events voyage_env empty_world [voyage_type] [voyage_message, voyage_message]) = 1"
  by code_simp

subsection \<open>Templates that name a missing value\<close>

lemma format_append:
  "format_str t1 g = Inr s1 \<Longrightarrow>
     format_str (t1 @ rest) g = (case format_str rest g of Inl e \<Rightarrow> Inl e | Inr r \<Rightarrow> Inr (s1 @ r))"
  "format_in t1 nm g = Inr s1 \<Longrightarrow>
     format_in (t1 @ rest) nm g = (case format_str rest g of Inl e \<Rightarrow> Inl e | Inr r \<Rightarrow> Inr (s1 @ r))"
proof (induction t1 g and t1 nm g arbitrary: s1 and s1 rule: format_str_format_in.induct)
  case (1 kwargs)
  then show ?case by (simp split: sum.splits)
next
  case (2 c cs kwargs)
  show ?case
  proof (cases "c = CHR ''{''")
    case True
    with "2.prems" obtain d ds where cs: "cs = d # ds" by (cases cs) auto
    show ?thesis
    proof (cases "d = CHR ''{''")
      case dT: True
      with True cs "2.prems" obtain r where r: "format_str ds kwargs = Inr r" "s1 = CHR ''{'' # r"
        by (auto split: sum.splits)
      from "2.IH"(1) [OF True cs dT r(1)] show ?thesis
        using True cs dT r by (simp split: sum.splits)
    next
      case dF: False
      with True cs "2.prems" have "format_in cs [] kwargs = Inr s1" by simp
      from "2.IH"(2) [OF True cs dF this] show ?thesis
        using True cs dF by (simp del: format_in.simps)
    qed
  next
    case False
    show ?thesis
    proof (cases "c = CHR ''}''")
      case cT: True
      with False "2.prems" obtain d ds where cs: "cs = d # ds" by (cases cs) auto
      with False cT "2.prems" have dT: "d = CHR ''}''" by (auto split: if_splits)
      with False cT cs "2.prems" obtain r where r: "format_str ds kwargs = Inr r" "s1 = CHR ''}'' # r"
        by (auto split: sum.splits)
      from "2.IH"(3) [OF False cT cs dT r(1)] show ?thesis
        using False cT cs dT r by (simp split: sum.splits)
    next
      case cF: False
      with False "2.prems" obtain r where r: "format_str cs kwargs = Inr r" "s1 = c # r"
        by (auto split: sum.splits)
      from "2.IH"(4) [OF False cF r(1)] show ?thesis
        using False cF r by (simp split: sum.splits)
    qed
  qed
next
  case (3 name kwargs)
  then show ?case by simp
next
  case (4 c cs name kwargs)
  show ?case
  proof (cases "c = CHR ''}''")
    case True
    with "4.prems" obtain v r where v: "format_field name kwargs = Inr v"
      "format_str cs kwargs = Inr r" "s1 = v @ r"
      by (auto split: sum.splits)
    from "4.IH"(1) [OF True v(1) v(2)] show ?thesis
      using True v by (simp split: sum.splits)
  next
    case False
    with "4.prems" have "format_in cs (name @ [c]) kwargs = Inr s1" by simp
    from "4.IH"(2) [OF False this] show ?thesis using False by simp
  qed
qed

lemma format_in_field:
  "\<forall>c \<in> set n. c \<noteq> CHR ''}'' \<Longrightarrow>
     format_in (n @ CHR ''}'' # t2) nm g =
       (case format_field (nm @ n) g of
          Inl e \<Rightarrow> Inl e
        | Inr v \<Rightarrow> (case format_str t2 g of Inl e \<Rightarrow> Inl e | Inr r \<Rightarrow> Inr (v @ r)))"
  by (induction n arbitrary: nm) auto

lemma format_field_missing:
  "plain_name n \<Longrightarrow> map_of g n = None \<Longrightarrow> format_field n g = Inl (KeyError n)"
  by (auto simp: format_field_def plain_name_def list_all_iff)

lemma format_str_field:
  assumes "plain_name n"
  shows "format_str (''{'' @ n @ ''}'' @ t2) g =
           (case format_field n g of
              Inl e \<Rightarrow> Inl e
            | Inr v \<Rightarrow> (case format_str t2 g of Inl e \<Rightarrow> Inl e | Inr r \<Rightarrow> Inr (v @ r)))"
proof -
  from assms obtain c cs where n: "n = c # cs" "c \<noteq> CHR ''{''"
    by (cases n) (auto simp: plain_name_def)
  from assms have nb: "\<forall>c \<in> set n. c \<noteq> CHR ''}''"
    by (auto simp: plain_name_def list_all_iff)
  have "format_str (''{'' @ n @ ''}'' @ t2) g = format_in (n @ CHR ''}'' # t2) [] g"
    using n by simp
  also have "\<dots> = (case format_field ([] @ n) g of
              Inl e \<Rightarrow> Inl e
            | Inr v \<Rightarrow> (case format_str t2 g of Inl e \<Rightarrow> Inl e | Inr r \<Rightarrow> Inr (v @ r)))"
    by (rule format_in_field [OF nb])
  finally show ?thesis by simp
qed

lemma format_str_missing:
  assumes "format_str t1 g = Inr s1" "plain_name n" "map_of g n = None"
  shows "format_str (t1 @ ''{'' @ n @ ''}'' @ t2) g = Inl (KeyError n)"
  using format_append(1) [OF assms(1), of "''{'' @ n @ ''}'' @ t2"]
    format_str_field [OF assms(2), of t2 g] format_field_missing [OF assms(2,3)]
  by simp






subsection \<open>The copy of the CSV\<close>

lemma process_csv_rows_inserts:
  "process_csv_rows env self rows w = (r, w') \<Longrightarrow>
     \<exists>evs. trace w' = trace w @ evs \<and> list_all is_insert evs"
proof (induction rows arbitrary: w)
  case Nil
  then show ?case by simp
next
  case (Cons row rows)
  obtain r1 w1 where r1: "process_csv_row env self row w = (r1, w1)"
    by (cases "process_csv_row env self row w") auto
  have "\<exists>evs. trace w1 = trace w @ evs \<and> list_all is_insert evs"
  proof (cases "coerce_columns (csv_columns self) row []")
    case (Inl e)
    with r1 have "w1 = w" by (simp add: process_csv_row_def)
    then show ?thesis by simp
  next
    case (Inr flds)
    with r1 have "trace w1 = trace w @ [InsertRow (table_name self) flds]"
      by (simp add: process_csv_row_def db_call_trace)
    then show ?thesis by simp
  qed
  then obtain evs1 where e1: "trace w1 = trace w @ evs1" "list_all is_insert evs1" by blast
  show ?case
  proof (cases r1)
    case (Inl e)
    with Cons.prems r1 have "w' = w1" by simp
    with e1 show ?thesis by blast
  next
    case (Inr u)
    with Cons.prems r1 have "process_csv_rows env self rows w1 = (r, w')" by simp
    from Cons.IH [OF this] obtain evs2 where
      e2: "trace w' = trace w1 @ evs2" "list_all is_insert evs2" by blast
    have "trace w' = trace w @ (evs1 @ evs2) \<and> list_all is_insert (evs1 @ evs2)"
      using e1 e2 by simp
    then show ?thesis by blast
  qed
qed

lemma inserts_no_write: "list_all is_insert evs \<Longrightarrow> filter is_write evs = []"
  by (induction evs) (auto elim: is_insert.elims)

lemma init_save_file_path_None:
  assumes "save_csv ct = Some sc"
      and "file_name_format sc = None \<or>
           (file_name_format sc = Some f \<and> strip f = t1 @ ''{'' @ n @ ''}'' @ t2 \<and>
            format_str t1 g = Inr s1 \<and> plain_name n \<and> map_of g n = None)"
  shows "init_save_file_path env ct g = Inr None"
  using assms(2)
proof
  assume "file_name_format sc = None"
  with assms(1) show ?thesis by (simp add: init_save_file_path_def getitem_def)
next
  assume a: "file_name_format sc = Some f \<and> strip f = t1 @ ''{'' @ n @ ''}'' @ t2 \<and>
            format_str t1 g = Inr s1 \<and> plain_name n \<and> map_of g n = None"
  then have "format_str (strip f) g = Inl (KeyError n)"
    using format_str_missing [of t1 g s1 n t2] by simp
  with a assms(1) show ?thesis by (simp add: init_save_file_path_def getitem_def)
qed

lemma ingest_no_write:
  assumes "init_save_file_path env ct g = Inr None"
  shows "filter is_write (new_events w (snd (ingest_matched env msg ct g w))) = []"
proof (cases "make_table_name ct g")
  case (Inl e)
  then show ?thesis by (simp add: ingest_matched_def new_events_def)
next
  case (Inr n)
  obtain r1 w1 where e1: "ensure_table env ct n w = (r1, w1)"
    by (cases "ensure_table env ct n w") auto
  from ensure_table_shape [OF e1] obtain evs0 where
    t1: "trace w1 = trace w @ evs0" "filter is_write evs0 = []" by auto
  have "\<exists>evs. trace (snd (ingest_matched env msg ct g w)) = trace w1 @ evs \<and> list_all is_insert evs"
  proof (cases r1)
    case (Inl e)
    with Inr e1 show ?thesis by (simp add: ingest_matched_def)
  next
    case r1: (Inr u)
    show ?thesis
    proof (cases "init_csv_columns ct")
      case (Inl e)
      with Inr e1 r1 assms show ?thesis
        by (simp add: ingest_matched_def VoyageEmailParser_init_def)
    next
      case c: (Inr cols)
      let ?self = "\<lparr>table_name = n, save_file_path = None, csv_columns = cols\<rparr>"
      obtain r2 w2 where e2: "process_csv_rows env ?self (csv_rows env (payload msg)) w1 = (r2, w2)"
        by (cases "process_csv_rows env ?self (csv_rows env (payload msg)) w1") auto
      have "snd (ingest_matched env msg ct g w) = w2"
        using Inr e1 r1 c assms e2
        by (auto simp: ingest_matched_def VoyageEmailParser_init_def
            CSVEmailParser_process_message_def process_csv_content_def
            CSVEmailParser_process_csv_content_def split: sum.splits)
      with process_csv_rows_inserts [OF e2] show ?thesis by simp
    qed
  qed
  then obtain evs where "trace (snd (ingest_matched env msg ct g w)) = trace w1 @ evs"
    "list_all is_insert evs" by blast
  then show ?thesis using t1 inserts_no_write [of evs] by (simp add: new_events_def)
qed

text \<open>
  C8. Let the settings of a type have \<^verbatim>\<open>save_csv\<close>, and let its \<^verbatim>\<open>file_name_format\<close>
  be missing, or hold a replacement field \<open>n\<close> that is not among the values extracted
  from the subject. Then the constructor raises nothing for it and leaves
  \<^verbatim>\<open>save_file_path\<close> at \<^verbatim>\<open>None\<close>: it returns the parser with that path (when the
  settings have the columns). With that path \<open>process_csv_content\<close> is the processing of
  the base class, and the ingestion of the message writes no file.
\<close>

theorem archival_disabled_without_error:
  assumes "save_csv ct = Some sc"
      and "file_name_format sc = None \<or>
           (file_name_format sc = Some f \<and> strip f = t1 @ ''{'' @ n @ ''}'' @ t2 \<and>
            format_str t1 g = Inr s1 \<and> plain_name n \<and> map_of g n = None)"
  shows "init_save_file_path env ct g = Inr None \<and>
         VoyageEmailParser_init env ct tn g =
           (case init_csv_columns ct of
              Inl e \<Rightarrow> Inl e
            | Inr cols \<Rightarrow> Inr \<lparr>table_name = tn, save_file_path = None, csv_columns = cols\<rparr>) \<and>
         process_csv_content env \<lparr>table_name = tn, save_file_path = None, csv_columns = cols\<rparr> content w =
           CSVEmailParser_process_csv_content env
             \<lparr>table_name = tn, save_file_path = None, csv_columns = cols\<rparr> content w \<and>
         filter is_write (new_events w (snd (ingest_matched env msg ct g w))) = []"
proof -
  have i: "init_save_file_path env ct g = Inr None"
    by (rule init_save_file_path_None [OF assms])
  show ?thesis
    using i ingest_no_write [OF i, of w msg]
    by (simp add: VoyageEmailParser_init_def process_csv_content_def split: sum.splits)
qed

theorem archival_disabled_without_error_witness:
  "init_save_file_path voyage_env unsaved_type [(''voyage_id'', Some ''123'')] = Inr None \<and>
   VoyageEmailParser_init voyage_env unsaved_type ''voyage_123'' [(''voyage_id'', Some ''123'')] =
     (case init_csv_columns unsaved_type of
        Inl e \<Rightarrow> Inl e
      | Inr cols \<Rightarrow> Inr \<lparr>table_name = ''voyage_123'', save_file_path = None, csv_columns = cols\<rparr>) \<and>
   process_csv_content voyage_env \<lparr>table_name = ''voyage_123'', save_file_path = None, csv_columns = []\<rparr>
       voyage_csv empty_world =
     CSVEmailParser_process_csv_content voyage_env
       \<lparr>table_name = ''voyage_123'', save_file_path = None, csv_columns = []\<rparr> voyage_csv empty_world \<and>
   filter is_write (new_events empty_world
     (snd (ingest_matched voyage_env voyage_message unsaved_type [(''voyage_id'', Some ''123'')]
        empty_world))) = []"
proof -
  have h1: "save_csv unsaved_type = Some \<lparr>file_name_format = Some ''{ship}_{voyage_id}.csv''\<rparr>"
    by (simp add: unsaved_type_def)
  have h2: "file_name_format \<lparr>file_name_format = Some ''{ship}_{voyage_id}.csv''\<rparr> = None \<or>
            (file_name_format \<lparr>file_name_format = Some ''{ship}_{voyage_id}.csv''\<rparr>
               = Some ''{ship}_{voyage_id}.csv'' \<and>
             strip ''{ship}_{voyage_id}.csv'' = [] @ ''{'' @ ''ship'' @ ''}'' @ ''_{voyage_id}.csv'' \<and>
             format_str [] [(''voyage_id'', Some ''123'')] = Inr [] \<and>
             plain_name ''ship'' \<and> map_of [(''voyage_id'', Some ''123'')] ''ship'' = None)"
    by code_simp
  show ?thesis by (rule archival_disabled_without_error [OF h1 h2])
qed

lemma archival_example:
  "filter is_write (message_events voyage_env empty_world voyage_message [voyage_type]) =
     [FileWrite ''/data/csv/123.csv'' voyage_csv]"
  "returned voyage_env empty_world voyage_message [unsaved_type] = Inr True"
  "filter is_write (message_events voyage_env empty_world voyage_message [unsaved_type]) = []"
  by code_simp+

subsection \<open>The coercion of a row\<close>

lemma coerce_skip_filter:
  "coerce_columns cols row flds = coerce_columns (filter (\<lambda>c. \<not> skipped row c) cols) row flds"
  by (induction cols row flds rule: coerce_columns.induct)
     (auto simp: skipped_def split: option.splits sum.splits)

lemma coerce_step_kept:
  assumes "\<not> skipped row (cn, fn, d)"
  shows "(\<exists>e. coerce_columns ((cn, fn, d) # cs) row flds = Inl e) \<or>
         (\<exists>v. coerce_columns ((cn, fn, d) # cs) row flds =
                coerce_columns cs row (AList.update fn v flds))"
proof -
  from assms obtain v ty where v: "row cn = Some v" "item_type d = Some ty"
    by (auto simp: skipped_def)
  show ?thesis
  proof (cases "''datetime'' = ty")
    case True
    with assms v obtain f where f: "csv_format d = Some f" by (auto simp: skipped_def)
    show ?thesis
    proof (cases "strptime v (strip f)")
      case (Inl e)
      with v True f have "coerce_columns ((cn, fn, d) # cs) row flds = Inl e" by simp
      then show ?thesis by blast
    next
      case (Inr dt)
      with v True f have "coerce_columns ((cn, fn, d) # cs) row flds =
          coerce_columns cs row (AList.update fn (DateTime dt) flds)" by simp
      then show ?thesis by blast
    qed
  next
    case False
    with v have "coerce_columns ((cn, fn, d) # cs) row flds =
          coerce_columns cs row (AList.update fn (Str v) flds)" by simp
    then show ?thesis by blast
  qed
qed

lemma coerce_fields_kept:
  "\<forall>c \<in> set cols. \<not> skipped row c \<Longrightarrow> coerce_columns cols row flds = Inr out \<Longrightarrow>
     fst ` set out = fst ` set flds \<union> (fst \<circ> snd) ` set cols"
proof (induction cols arbitrary: flds)
  case Nil
  then show ?case by simp
next
  case (Cons c cols)
  obtain cn fn d where c: "c = (cn, fn, d)" by (cases c) auto
  from Cons.prems(1) c have "\<not> skipped row (cn, fn, d)" by simp
  from coerce_step_kept [OF this, of cols flds] Cons.prems(2) c
  obtain v where "coerce_columns cols row (AList.update fn v flds) = Inr out" by auto
  from Cons.IH [OF _ this] Cons.prems(1)
  have "fst ` set out = fst ` set (AList.update fn v flds) \<union> (fst \<circ> snd) ` set cols" by simp
  then show ?case using c by (auto simp: dom_update)
qed

lemma coerce_fields:
  assumes "coerce_columns cols row [] = Inr out"
  shows "fst ` set out = {fn. \<exists>cn d. (cn, fn, d) \<in> set cols \<and> \<not> skipped row (cn, fn, d)}"
proof -
  let ?kept = "filter (\<lambda>c. \<not> skipped row c) cols"
  from assms have "coerce_columns ?kept row [] = Inr out"
    using coerce_skip_filter [of cols row "[]"] by simp
  from coerce_fields_kept [OF _ this]
  have "fst ` set out = (fst \<circ> snd) ` set ?kept" by simp
  also have "\<dots> = {fn. \<exists>cn d. (cn, fn, d) \<in> set cols \<and> \<not> skipped row (cn, fn, d)}"
    by force
  finally show ?thesis .
qed

lemma coerce_all_skipped:
  assumes "\<forall>c \<in> set cols. skipped row c"
  shows "coerce_columns cols row flds = Inr flds"
proof -
  from assms have "filter (\<lambda>c. \<not> skipped row c) cols = []" by (simp add: filter_empty_conv)
  then show ?thesis using coerce_skip_filter [of cols row flds] by simp
qed

lemma skipped_not_raises: "skipped row c \<Longrightarrow> \<not> raises row c"
  by (auto simp: skipped_def raises_def split: prod.splits option.splits)

lemma coerce_step_raises:
  assumes "raises row (cn, fn, d)"
  shows "\<exists>v f e. row cn = Some v \<and> csv_format d = Some f \<and> strptime v (strip f) = Inl e \<and>
           coerce_columns ((cn, fn, d) # cs) row flds = Inl e"
  using assms
  by (auto simp: raises_def isl_def split: option.splits)

lemma coerce_step_stored:
  assumes "\<not> skipped row (cn, fn, d)" "\<not> raises row (cn, fn, d)"
  shows "\<exists>v. stored_value row (cn, fn, d) = Some v \<and>
           coerce_columns ((cn, fn, d) # cs) row flds = coerce_columns cs row (AList.update fn v flds)"
proof -
  from assms(1) obtain v ty where v: "row cn = Some v" "item_type d = Some ty"
    by (auto simp: skipped_def)
  show ?thesis
  proof (cases "''datetime'' = ty")
    case True
    with assms(1) v obtain f where f: "csv_format d = Some f" by (auto simp: skipped_def)
    with assms(2) v True obtain dt where dt: "strptime v (strip f) = Inr dt"
      by (cases "strptime v (strip f)") (auto simp: raises_def)
    have "stored_value row (cn, fn, d) = Some (DateTime dt)"
      using assms(1) v True f dt by (simp add: stored_value_def)
    moreover have "coerce_columns ((cn, fn, d) # cs) row flds =
        coerce_columns cs row (AList.update fn (DateTime dt) flds)"
      using v True f dt by simp
    ultimately show ?thesis by blast
  next
    case False
    have "stored_value row (cn, fn, d) = Some (Str v)"
      using assms(1) v False by (auto simp: stored_value_def)
    moreover have "coerce_columns ((cn, fn, d) # cs) row flds =
        coerce_columns cs row (AList.update fn (Str v) flds)"
      using v False by simp
    ultimately show ?thesis by blast
  qed
qed

lemma coerce_step_skipped:
  "skipped row (cn, fn, d) \<Longrightarrow>
     coerce_columns ((cn, fn, d) # cs) row flds = coerce_columns cs row flds"
  by (auto simp: skipped_def split: option.splits)

lemma coerce_isl_iff:
  "isl (coerce_columns cols row flds) = (\<exists>c \<in> set cols. raises row c)"
proof (induction cols arbitrary: flds)
  case Nil
  show ?case by simp
next
  case (Cons c cols)
  obtain cn fn d where c: "c = (cn, fn, d)" by (cases c) auto
  show ?case
  proof (cases "skipped row c")
    case True
    then show ?thesis
      using c Cons.IH [of flds] coerce_step_skipped [of row cn fn d cols flds]
        skipped_not_raises [of row c] by simp
  next
    case False
    show ?thesis
    proof (cases "raises row c")
      case True
      with c coerce_step_raises [of row cn fn d cols flds] show ?thesis by auto
    next
      case nr: False
      from coerce_step_stored [of row cn fn d cols flds] False nr c
      obtain v where "coerce_columns (c # cols) row flds =
          coerce_columns cols row (AList.update fn v flds)" by auto
      with Cons.IH [of "AList.update fn v flds"] nr show ?thesis by simp
    qed
  qed
qed

lemma coerce_frame:
  "coerce_columns cols row flds = Inr out \<Longrightarrow> fn \<notin> (fst \<circ> snd) ` set cols \<Longrightarrow>
     map_of out fn = map_of flds fn"
proof (induction cols arbitrary: flds)
  case Nil
  then show ?case by simp
next
  case (Cons c cols)
  obtain cn fn' d where c: "c = (cn, fn', d)" by (cases c) auto
  with Cons.prems(2) have ne: "fn' \<noteq> fn" and nin: "fn \<notin> (fst \<circ> snd) ` set cols" by auto
  show ?case
  proof (cases "skipped row c")
    case True
    with c have "coerce_columns (c # cols) row flds = coerce_columns cols row flds"
      using coerce_step_skipped [of row cn fn' d cols flds] by blast
    with Cons.prems(1) have "coerce_columns cols row flds = Inr out" by metis
    from Cons.IH [OF this nin] show ?thesis .
  next
    case False
    have nr: "\<not> raises row c"
      using Cons.prems(1) coerce_isl_iff [of "c # cols" row flds] by auto
    from coerce_step_stored [of row cn fn' d cols flds] False nr c Cons.prems(1)
    obtain v where "coerce_columns cols row (AList.update fn' v flds) = Inr out" by auto
    from Cons.IH [OF this nin] show ?thesis using ne by (simp add: update_conv')
  qed
qed

lemma coerce_values:
  "coerce_columns cols row flds = Inr out \<Longrightarrow> distinct (map (fst \<circ> snd) cols) \<Longrightarrow>
     c \<in> set cols \<Longrightarrow>
     map_of out (fst (snd c)) =
       (if skipped row c then map_of flds (fst (snd c)) else stored_value row c)"
proof (induction cols arbitrary: flds)
  case Nil
  then show ?case by simp
next
  case (Cons c' cols)
  obtain cn' fn' d' where c': "c' = (cn', fn', d')" by (cases c') auto
  from Cons.prems(2) c' have nin: "fn' \<notin> (fst \<circ> snd) ` set cols"
    and dist: "distinct (map (fst \<circ> snd) cols)" by (auto simp: comp_def)
  have nr: "\<not> raises row c'"
    using Cons.prems(1) coerce_isl_iff [of "c' # cols" row flds] by auto
  show ?case
  proof (cases "c = c'")
    case True
    show ?thesis
    proof (cases "skipped row c'")
      case sk: True
      with c' have "coerce_columns (c' # cols) row flds = coerce_columns cols row flds"
        using coerce_step_skipped [of row cn' fn' d' cols flds] by blast
      with Cons.prems(1) have "coerce_columns cols row flds = Inr out" by metis
      from coerce_frame [OF this nin] show ?thesis using True sk c' by simp
    next
      case ns: False
      from coerce_step_stored [of row cn' fn' d' cols flds] ns nr c' Cons.prems(1)
      obtain v where v: "stored_value row c' = Some v"
        "coerce_columns cols row (AList.update fn' v flds) = Inr out" by auto
      from coerce_frame [OF v(2) nin] show ?thesis
        using True ns c' v(1) by (simp add: update_conv')
    qed
  next
    case False
    with Cons.prems(3) have cin: "c \<in> set cols" by simp
    with nin have ne: "fst (snd c) \<noteq> fn'" by force
    show ?thesis
    proof (cases "skipped row c'")
      case sk: True
      with c' have "coerce_columns (c' # cols) row flds = coerce_columns cols row flds"
        using coerce_step_skipped [of row cn' fn' d' cols flds] by blast
      with Cons.prems(1) have "coerce_columns cols row flds = Inr out" by metis
      from Cons.IH [OF this dist cin] show ?thesis .
    next
      case ns: False
      from coerce_step_stored [of row cn' fn' d' cols flds] ns nr c' Cons.prems(1)
      obtain v where "coerce_columns cols row (AList.update fn' v flds) = Inr out" by auto
      from Cons.IH [OF this dist cin] show ?thesis using ne by (simp add: update_conv')
    qed
  qed
qed

lemma stored_value_None_iff:
  "\<not> raises row c \<Longrightarrow> (stored_value row c = None) = skipped row c"
  by (cases c) (auto simp: stored_value_def raises_def skipped_def split: sum.splits option.splits)

lemma coerce_ok_result:
  assumes "\<forall>c \<in> set cols. \<not> raises row c"
  shows "\<exists>res. coerce_columns cols row [] = Inr res \<and>
           fst ` set res = {fn. \<exists>cn d. (cn, fn, d) \<in> set cols \<and> \<not> skipped row (cn, fn, d)} \<and>
           (distinct (map (fst \<circ> snd) cols) \<longrightarrow>
              (\<forall>c \<in> set cols. map_of res (fst (snd c)) = stored_value row c \<and>
                              (map_of res (fst (snd c)) = None) = skipped row c))"
proof -
  from assms have "\<not> isl (coerce_columns cols row [])" by (simp add: coerce_isl_iff)
  then obtain res where res: "coerce_columns cols row [] = Inr res"
    by (cases "coerce_columns cols row []") auto
  have dom: "fst ` set res = {fn. \<exists>cn d. (cn, fn, d) \<in> set cols \<and> \<not> skipped row (cn, fn, d)}"
    by (rule coerce_fields [OF res])
  have vals: "map_of res (fst (snd c)) = stored_value row c \<and>
              (map_of res (fst (snd c)) = None) = skipped row c"
    if d: "distinct (map (fst \<circ> snd) cols)" and c: "c \<in> set cols" for c
  proof -
    from c assms have nr: "\<not> raises row c" by blast
    have sv: "skipped row c \<Longrightarrow> stored_value row c = None"
      using stored_value_None_iff [OF nr] by simp
    from coerce_values [OF res d c] have "map_of res (fst (snd c)) = stored_value row c"
      using sv by (cases "skipped row c") simp_all
    then show ?thesis using stored_value_None_iff [OF nr] by simp
  qed
  show ?thesis using res dom vals by blast
qed

text \<open>
  C3. The row coerced from a CSV record is the row coerced from the columns that are
  not skipped: a column whose CSV name the record lacks, or whose details lack the
  type, or whose type is \<^verbatim>\<open>datetime\<close> with no format, adds nothing and raises
  nothing, and the columns after it are processed as if it were not there. A skipped
  column never raises: the coercion raises exactly when some column raises (a
  \<^verbatim>\<open>datetime\<close> column with a format whose text does not convert), and a record all
  of whose columns are skipped is coerced to the row given, with no error. When no
  column raises, the coercion returns a row; its fields are exactly the field names of
  the columns that are not skipped, and when the field names of the columns are
  distinct it holds for each column the value of the specification, which is none
  exactly when the column is skipped. The record is any mapping, so it may hold
  columns the specification of the type does not name.
\<close>

theorem skipped_columns_are_omitted:
  "coerce_columns cols row flds = coerce_columns (filter (\<lambda>c. \<not> skipped row c) cols) row flds \<and>
   (coerce_columns cols row [] = Inr out \<longrightarrow>
      fst ` set out = {fn. \<exists>cn d. (cn, fn, d) \<in> set cols \<and> \<not> skipped row (cn, fn, d)}) \<and>
   (\<forall>c \<in> set cols. skipped row c \<longrightarrow> \<not> raises row c) \<and>
   isl (coerce_columns cols row flds) = (\<exists>c \<in> set cols. raises row c) \<and>
   ((\<forall>c \<in> set cols. skipped row c) \<longrightarrow> coerce_columns cols row flds = Inr flds) \<and>
   ((\<forall>c \<in> set cols. \<not> raises row c) \<longrightarrow>
      (\<exists>res. coerce_columns cols row [] = Inr res \<and>
             fst ` set res = {fn. \<exists>cn d. (cn, fn, d) \<in> set cols \<and> \<not> skipped row (cn, fn, d)} \<and>
             (distinct (map (fst \<circ> snd) cols) \<longrightarrow>
                (\<forall>c \<in> set cols. map_of res (fst (snd c)) = stored_value row c \<and>
                                (map_of res (fst (snd c)) = None) = skipped row c))))"
proof (intro conjI impI ballI)
  show "coerce_columns cols row flds = coerce_columns (filter (\<lambda>c. \<not> skipped row c) cols) row flds"
    by (rule coerce_skip_filter)
next
  assume "coerce_columns cols row [] = Inr out"
  then show "fst ` set out = {fn. \<exists>cn d. (cn, fn, d) \<in> set cols \<and> \<not> skipped row (cn, fn, d)}"
    by (rule coerce_fields)
next
  fix c assume "skipped row c"
  then show "\<not> raises row c" by (rule skipped_not_raises)
next
  show "isl (coerce_columns cols row flds) = (\<exists>c \<in> set cols. raises row c)"
    by (rule coerce_isl_iff)
next
  assume "\<forall>c \<in> set cols. skipped row c"
  then show "coerce_columns cols row flds = Inr flds" by (rule coerce_all_skipped)
next
  assume "\<forall>c \<in> set cols. \<not> raises row c"
  then show "\<exists>res. coerce_columns cols row [] = Inr res \<and>
             fst ` set res = {fn. \<exists>cn d. (cn, fn, d) \<in> set cols \<and> \<not> skipped row (cn, fn, d)} \<and>
             (distinct (map (fst \<circ> snd) cols) \<longrightarrow>
                (\<forall>c \<in> set cols. map_of res (fst (snd c)) = stored_value row c \<and>
                                (map_of res (fst (snd c)) = None) = skipped row c))"
    by (rule coerce_ok_result)
qed

theorem skipped_columns_are_omitted_witness:
  "coerce_columns (csv_columns voyage_parser) (voyage_rows ! 1) [] = Inr [] \<and>
   \<not> isl (coerce_columns (csv_columns voyage_parser) (hd voyage_rows) []) \<and>
   (\<exists>res. coerce_columns (csv_columns voyage_parser) (hd voyage_rows) [] = Inr res \<and>
      fst ` set res =
        {fn. \<exists>cn d. (cn, fn, d) \<in> set (csv_columns voyage_parser) \<and>
                     \<not> skipped (hd voyage_rows) (cn, fn, d)} \<and>
      (distinct (map (fst \<circ> snd) (csv_columns voyage_parser)) \<longrightarrow>
         (\<forall>c \<in> set (csv_columns voyage_parser).
            map_of res (fst (snd c)) = stored_value (hd voyage_rows) c \<and>
            (map_of res (fst (snd c)) = None) = skipped (hd voyage_rows) c)))"
proof -
  have h1: "\<forall>c \<in> set (csv_columns voyage_parser). skipped (voyage_rows ! 1) c" by code_simp
  have h2: "\<forall>c \<in> set (csv_columns voyage_parser). \<not> raises (hd voyage_rows) c" by code_simp
  note T1 = skipped_columns_are_omitted [of "csv_columns voyage_parser" "voyage_rows ! 1" "[]" "[]"]
  note T2 = skipped_columns_are_omitted [of "csv_columns voyage_parser" "hd voyage_rows" "[]" "[]"]
  from T1 have "(\<forall>c \<in> set (csv_columns voyage_parser). skipped (voyage_rows ! 1) c) \<longrightarrow>
      coerce_columns (csv_columns voyage_parser) (voyage_rows ! 1) [] = Inr []"
    by (elim conjE)
  with h1 have a: "coerce_columns (csv_columns voyage_parser) (voyage_rows ! 1) [] = Inr []"
    by (rule_tac mp)
  from T2 have "isl (coerce_columns (csv_columns voyage_parser) (hd voyage_rows) []) =
      (\<exists>c \<in> set (csv_columns voyage_parser). raises (hd voyage_rows) c)"
    by (elim conjE)
  with h2 have b: "\<not> isl (coerce_columns (csv_columns voyage_parser) (hd voyage_rows) [])"
    by (simp only: bex_simps not_not) 
  from T2 have "(\<forall>c \<in> set (csv_columns voyage_parser). \<not> raises (hd voyage_rows) c) \<longrightarrow>
    (\<exists>res. coerce_columns (csv_columns voyage_parser) (hd voyage_rows) [] = Inr res \<and>
      fst ` set res =
        {fn. \<exists>cn d. (cn, fn, d) \<in> set (csv_columns voyage_parser) \<and>
                     \<not> skipped (hd voyage_rows) (cn, fn, d)} \<and>
      (distinct (map (fst \<circ> snd) (csv_columns voyage_parser)) \<longrightarrow>
         (\<forall>c \<in> set (csv_columns voyage_parser).
            map_of res (fst (snd c)) = stored_value (hd voyage_rows) c \<and>
            (map_of res (fst (snd c)) = None) = skipped (hd voyage_rows) c)))"
    by (elim conjE)
  from this h2 have c: "\<exists>res. coerce_columns (csv_columns voyage_parser) (hd voyage_rows) [] = Inr res \<and>
      fst ` set res =
        {fn. \<exists>cn d. (cn, fn, d) \<in> set (csv_columns voyage_parser) \<and>
                     \<not> skipped (hd voyage_rows) (cn, fn, d)} \<and>
      (distinct (map (fst \<circ> snd) (csv_columns voyage_parser)) \<longrightarrow>
         (\<forall>c \<in> set (csv_columns voyage_parser).
            map_of res (fst (snd c)) = stored_value (hd voyage_rows) c \<and>
            (map_of res (fst (snd c)) = None) = skipped (hd voyage_rows) c))"
    by (rule mp)
  from a b c show ?thesis by (intro conjI)
qed

lemma skipped_example:
  "map fst (filter (skipped (hd voyage_rows)) (csv_columns voyage_parser)) = [''note'', ''logged'']"
  "map fst (filter (skipped (voyage_rows ! 1)) (csv_columns voyage_parser)) =
     [''date'', ''temp'', ''note'', ''logged'']"
  "coerce_columns (csv_columns voyage_parser) (voyage_rows ! 1) [] = Inr []"
  by code_simp+

lemma coerced_row_example:
  "coerce_columns (csv_columns voyage_parser) (hd voyage_rows) [] =
     Inr [(''obs_date'', DateTime \<lparr>year = 2024, month = 3, day = 1, hour = 0, minute = 0, second = 0\<rparr>),
          (''temp'', Str ''4.5'')]"
  "map (stored_value (hd voyage_rows)) (csv_columns voyage_parser) =
     [Some (DateTime \<lparr>year = 2024, month = 3, day = 1, hour = 0, minute = 0, second = 0\<rparr>),
      Some (Str ''4.5''), None, None]"
  by code_simp+

lemma coerce_append:
  "coerce_columns (cs1 @ cs2) row flds =
     (case coerce_columns cs1 row flds of Inl e \<Rightarrow> Inl e | Inr f1 \<Rightarrow> coerce_columns cs2 row f1)"
  by (induction cs1 row flds rule: coerce_columns.induct)
     (auto split: option.splits sum.splits)

lemma strptime_iso_date:
  "strptime ''2024-03-01'' (strip ''%Y-%m-%d'') =
     Inr \<lparr>year = 2024, month = 3, day = 1, hour = 0, minute = 0, second = 0\<rparr>"
  by code_simp

lemma strptime_not_a_date: "strptime ''not-a-date'' (strip ''%Y-%m-%d'') = Inl ValueError"
  by code_simp

lemma process_csv_rows_append:
  "process_csv_rows env self (rows1 @ rows2) w =
     (case process_csv_rows env self rows1 w of
        (Inl e, w') \<Rightarrow> (Inl e, w')
      | (Inr u, w') \<Rightarrow> process_csv_rows env self rows2 w')"
  by (induction rows1 arbitrary: w) (auto split: prod.splits sum.splits)

lemma process_csv_row_error:
  "coerce_columns (csv_columns self) row [] = Inl e \<Longrightarrow> process_csv_row env self row w = (Inl e, w)"
  by (simp add: process_csv_row_def)

lemma strptime_not_word:
  assumes "strptime_regex f = Inr rx" "distinct (group_names rx)" "v \<notin> lang rx"
  shows "strptime v f = Inl ValueError"
proof (cases "rx_match_end rx v")
  case None
  with assms show ?thesis by (simp add: strptime_def)
next
  case (Some st)
  obtain found rest where st: "st = (found, rest)" by (cases st) auto
  from Some have "st \<in> set (rx_run rx (map (\<lambda>n. (n, None)) (remdups (group_names rx)), v))"
    by (auto simp: rx_match_end_def split: list.splits)
  from rx_run_sound [OF this] st obtain p where "v = p @ rest" "p \<in> lang rx" by auto
  with assms(3) have "rest \<noteq> []" by auto
  with assms Some st show ?thesis by (simp add: strptime_def)
qed

lemma strptime_error_kind:
  assumes "strptime_regex f = Inr rx" "distinct (group_names rx)" "strptime v f = Inl e"
  shows "e = ValueError"
  using assms
  by (auto simp: strptime_def Let_def split: option.splits if_splits prod.splits)

lemma iso_date_rx_pattern: "strptime_regex (strip ''%Y-%m-%d'') = Inr iso_date_rx \<and> distinct (group_names iso_date_rx)"
  by code_simp

lemma not_a_date_not_word: "''not-a-date'' \<notin> lang iso_date_rx"
proof
  assume "''not-a-date'' \<in> lang iso_date_rx"
  from rx_run_complete [OF this, of "[]" "[]"]
  obtain g' where "(g', []) \<in> set (rx_run iso_date_rx ([], ''not-a-date'' @ []))" by blast
  moreover have "rx_run iso_date_rx ([], ''not-a-date'' @ []) = []" by code_simp
  ultimately show False by simp
qed

lemma coerce_raise_at:
  assumes "row cn = Some v" "item_type d = Some ''datetime''" "csv_format d = Some f"
      and "strptime v (strip f) = Inl e" "coerce_columns cs1 row flds = Inr flds1"
  shows "coerce_columns (cs1 @ (cn, fn, d) # cs2) row flds = Inl e"
  using assms by (simp add: coerce_append)

text \<open>
  C4. For a column of type \<^verbatim>\<open>datetime\<close> with the format \<^verbatim>\<open>%Y-%m-%d\<close> and a record
  that holds the text \<^verbatim>\<open>2024-03-01\<close> for it: the coercion of that column alone
  returns the row with the date and time 1 March 2024, 00:00:00 under the field name of
  the column, and so does the coercion of any list of columns with distinct field
  names none of which raises. A text that does not conform to the format of its
  column makes the coercion of the row raise what \<^verbatim>\<open>strptime\<close> raises, whatever
  columns come after it; for a format that compiles this is \<^verbatim>\<open>ValueError\<close>, the
  exception that the specification calls a parse error, and it is raised in
  particular for every text that is not a word of the pattern of the format, such as
  \<^verbatim>\<open>not-a-date\<close> for \<^verbatim>\<open>%Y-%m-%d\<close>. An exception of the coercion of a row is the
  result of the loop over the rows: the rows before it have been processed, and
  neither the row nor the rows after it are.
\<close>

theorem datetime_coercion_and_parse_error:
  "(row cn = Some ''2024-03-01'' \<and> item_type d = Some ''datetime'' \<and>
    csv_format d = Some ''%Y-%m-%d'' \<longrightarrow>
      coerce_columns [(cn, fn, d)] row [] = Inr [(fn, DateTime \<lparr>year = 2024, month = 3, day = 1, hour = 0, minute = 0, second = 0\<rparr>)] \<and>
      stored_value row (cn, fn, d) = Some (DateTime \<lparr>year = 2024, month = 3, day = 1, hour = 0, minute = 0, second = 0\<rparr>) \<and>
      coerce_columns ((cn, fn, d) # cs) row flds =
        coerce_columns cs row (AList.update fn (DateTime \<lparr>year = 2024, month = 3, day = 1, hour = 0, minute = 0, second = 0\<rparr>) flds) \<and>
      ((cn, fn, d) \<in> set cols \<and> distinct (map (fst \<circ> snd) cols) \<and>
       (\<forall>c \<in> set cols. \<not> raises row c) \<longrightarrow>
         (\<exists>res. coerce_columns cols row [] = Inr res \<and> map_of res fn = Some (DateTime \<lparr>year = 2024, month = 3, day = 1, hour = 0, minute = 0, second = 0\<rparr>)))) \<and>
   (row cn = Some ''not-a-date'' \<and> item_type d = Some ''datetime'' \<and>
    csv_format d = Some ''%Y-%m-%d'' \<and> coerce_columns csa row flds = Inr fldsa \<longrightarrow>
      coerce_columns (csa @ (cn, fn, d) # csb) row flds = Inl ValueError) \<and>
   (row cn = Some v \<and> item_type d = Some ''datetime'' \<and> csv_format d = Some f \<and>
    coerce_columns csa row flds = Inr fldsa \<and>
    strptime_regex (strip f) = Inr rx \<and> distinct (group_names rx) \<and>
    (v \<notin> lang rx \<or> isl (strptime v (strip f))) \<longrightarrow>
      strptime v (strip f) = Inl ValueError \<and>
      coerce_columns (csa @ (cn, fn, d) # csb) row flds = Inl ValueError) \<and>
   (row cn = Some v \<and> item_type d = Some ''datetime'' \<and> csv_format d = Some f \<and>
    coerce_columns csa row flds = Inr fldsa \<and> strptime v (strip f) = Inl e \<longrightarrow>
      coerce_columns (csa @ (cn, fn, d) # csb) row flds = Inl e) \<and>
   (v \<notin> lang iso_date_rx \<longrightarrow> strptime v (strip ''%Y-%m-%d'') = Inl ValueError) \<and>
   (coerce_columns (csv_columns self) r [] = Inl e \<and>
    fst (process_csv_rows env self before w) = Inr () \<longrightarrow>
      process_csv_rows env self (before @ r # after) w =
        (Inl e, snd (process_csv_rows env self before w)))"
proof (intro conjI impI)
  assume a: "row cn = Some ''2024-03-01'' \<and> item_type d = Some ''datetime'' \<and>
    csv_format d = Some ''%Y-%m-%d''"
  then show "coerce_columns [(cn, fn, d)] row [] = Inr [(fn, DateTime \<lparr>year = 2024, month = 3, day = 1, hour = 0, minute = 0, second = 0\<rparr>)]"
    using strptime_iso_date by simp
  from a show sv: "stored_value row (cn, fn, d) = Some (DateTime \<lparr>year = 2024, month = 3, day = 1, hour = 0, minute = 0, second = 0\<rparr>)"
    using strptime_iso_date by (simp add: stored_value_def skipped_def)
  from a show "coerce_columns ((cn, fn, d) # cs) row flds =
        coerce_columns cs row (AList.update fn (DateTime \<lparr>year = 2024, month = 3, day = 1, hour = 0, minute = 0, second = 0\<rparr>) flds)"
    using strptime_iso_date by simp
  assume b: "(cn, fn, d) \<in> set cols \<and> distinct (map (fst \<circ> snd) cols) \<and>
       (\<forall>c \<in> set cols. \<not> raises row c)"
  then have "\<forall>c \<in> set cols. \<not> raises row c" by blast
  from coerce_ok_result [OF this] b obtain res where
    res: "coerce_columns cols row [] = Inr res"
    "\<forall>c \<in> set cols. map_of res (fst (snd c)) = stored_value row c" by blast
  from res(2) b have "map_of res (fst (snd (cn, fn, d))) = stored_value row (cn, fn, d)" by blast
  with sv res(1) show "\<exists>res. coerce_columns cols row [] = Inr res \<and> map_of res fn = Some (DateTime \<lparr>year = 2024, month = 3, day = 1, hour = 0, minute = 0, second = 0\<rparr>)"
    by simp
next
  assume "row cn = Some ''not-a-date'' \<and> item_type d = Some ''datetime'' \<and>
    csv_format d = Some ''%Y-%m-%d'' \<and> coerce_columns csa row flds = Inr fldsa"
  then show "coerce_columns (csa @ (cn, fn, d) # csb) row flds = Inl ValueError"
    using strptime_not_a_date by (simp add: coerce_append)
next
  assume a: "row cn = Some v \<and> item_type d = Some ''datetime'' \<and> csv_format d = Some f \<and>
    coerce_columns csa row flds = Inr fldsa \<and>
    strptime_regex (strip f) = Inr rx \<and> distinct (group_names rx) \<and>
    (v \<notin> lang rx \<or> isl (strptime v (strip f)))"
  then have rx: "strptime_regex (strip f) = Inr rx" "distinct (group_names rx)" by blast+
  from a have "v \<notin> lang rx \<or> isl (strptime v (strip f))" by blast
  then show e: "strptime v (strip f) = Inl ValueError"
  proof
    assume "v \<notin> lang rx"
    with rx show ?thesis by (rule strptime_not_word)
  next
    assume "isl (strptime v (strip f))"
    then obtain e' where e': "strptime v (strip f) = Inl e'"
      by (cases "strptime v (strip f)") auto
    from strptime_error_kind [OF rx e'] e' show ?thesis by simp
  qed
  from a e show "coerce_columns (csa @ (cn, fn, d) # csb) row flds = Inl ValueError"
    by (simp add: coerce_append)
next
  assume "row cn = Some v \<and> item_type d = Some ''datetime'' \<and> csv_format d = Some f \<and>
    coerce_columns csa row flds = Inr fldsa \<and> strptime v (strip f) = Inl e"
  then show "coerce_columns (csa @ (cn, fn, d) # csb) row flds = Inl e"
    by (simp add: coerce_append)
next
  assume "v \<notin> lang iso_date_rx"
  with iso_date_rx_pattern show "strptime v (strip ''%Y-%m-%d'') = Inl ValueError"
    by (blast intro: strptime_not_word)
next
  assume a: "coerce_columns (csv_columns self) r [] = Inl e \<and>
    fst (process_csv_rows env self before w) = Inr ()"
  obtain w1 where w1: "process_csv_rows env self before w = (Inr (), w1)"
    using a by (cases "process_csv_rows env self before w") auto
  show "process_csv_rows env self (before @ r # after) w =
        (Inl e, snd (process_csv_rows env self before w))"
    using a w1 by (simp add: process_csv_rows_append process_csv_row_error)
qed

theorem datetime_coercion_and_parse_error_witness:
  "coerce_columns [(''date'', ''obs_date'', date_details)] (hd voyage_rows) [] =
     Inr [(''obs_date'', DateTime \<lparr>year = 2024, month = 3, day = 1, hour = 0, minute = 0, second = 0\<rparr>)] \<and>
   (\<exists>res. coerce_columns (csv_columns voyage_parser) (hd voyage_rows) [] = Inr res \<and>
          map_of res ''obs_date'' = Some (DateTime \<lparr>year = 2024, month = 3, day = 1, hour = 0, minute = 0, second = 0\<rparr>)) \<and>
   strptime ''not-a-date'' (strip ''%Y-%m-%d'') = Inl ValueError \<and>
   coerce_columns ([] @ (''date'', ''obs_date'', date_details) # tl (csv_columns voyage_parser))
     bad_row [] = Inl ValueError \<and>
   process_csv_rows voyage_env voyage_parser ([hd voyage_rows] @ bad_row # [voyage_rows ! 1])
       stored_world =
     (Inl ValueError, snd (process_csv_rows voyage_env voyage_parser [hd voyage_rows] stored_world))"
proof -
  have h1: "hd voyage_rows ''date'' = Some ''2024-03-01'' \<and>
            item_type date_details = Some ''datetime'' \<and>
            csv_format date_details = Some ''%Y-%m-%d''"
    by code_simp
  have h1b: "(''date'', ''obs_date'', date_details) \<in> set (csv_columns voyage_parser) \<and>
             distinct (map (fst \<circ> snd) (csv_columns voyage_parser)) \<and>
             (\<forall>c \<in> set (csv_columns voyage_parser). \<not> raises (hd voyage_rows) c)"
    by code_simp
  have p: "bad_row ''date'' = Some ''not-a-date''" "item_type date_details = Some ''datetime''"
    "csv_format date_details = Some ''%Y-%m-%d''" "coerce_columns [] bad_row [] = Inr []"
    by code_simp+
  have h2: "bad_row ''date'' = Some ''not-a-date'' \<and> item_type date_details = Some ''datetime'' \<and>
            csv_format date_details = Some ''%Y-%m-%d'' \<and>
            coerce_columns [] bad_row [] = Inr [] \<and>
            strptime_regex (strip ''%Y-%m-%d'') = Inr iso_date_rx \<and>
            distinct (group_names iso_date_rx) \<and>
            (''not-a-date'' \<notin> lang iso_date_rx \<or> isl (strptime ''not-a-date'' (strip ''%Y-%m-%d'')))"
    using p iso_date_rx_pattern not_a_date_not_word by blast
  have h3: "coerce_columns (csv_columns voyage_parser) bad_row [] = Inl ValueError \<and>
            fst (process_csv_rows voyage_env voyage_parser [hd voyage_rows] stored_world) = Inr ()"
    by code_simp
  note T1 = datetime_coercion_and_parse_error
    [where row = "hd voyage_rows" and cn = "''date''" and d = date_details and fn = "''obs_date''"
       and cols = "csv_columns voyage_parser"]
  note T2 = datetime_coercion_and_parse_error
    [where row = bad_row and cn = "''date''" and d = date_details and fn = "''obs_date''"
       and v = "''not-a-date''" and f = "''%Y-%m-%d''" and rx = iso_date_rx
       and csa = "[]" and flds = "[]" and fldsa = "[]"
       and csb = "tl (csv_columns voyage_parser)"
       and self = voyage_parser and r = bad_row and e = ValueError and env = voyage_env
       and before = "[hd voyage_rows]" and w = stored_world and after = "[voyage_rows ! 1]"]
  note R1 = T1 [THEN conjunct1, THEN mp, OF h1]
  note a = R1 [THEN conjunct1]
  note b = R1 [THEN conjunct2, THEN conjunct2, THEN conjunct2, THEN mp, OF h1b]
  note R3 = T2 [THEN conjunct2, THEN conjunct2, THEN conjunct1, THEN mp, OF h2]
  note c = R3 [THEN conjunct1]
  note d = R3 [THEN conjunct2]
  note e = T2 [THEN conjunct2, THEN conjunct2, THEN conjunct2, THEN conjunct2, THEN conjunct2,
    THEN mp, OF h3]
  from a b c d e show ?thesis by (intro conjI)
qed

lemma malformed_dates_example:
  "map (\<lambda>v. strptime v ''%Y-%m-%d'') [''2024-02-30'', ''2024-3-1'', ''24-03-01'', ''2024/03/01'', []] =
     [Inl ValueError, Inr \<lparr>year = 2024, month = 3, day = 1, hour = 0, minute = 0, second = 0\<rparr>, Inl ValueError, Inl ValueError, Inl ValueError]"
  by code_simp

lemma parse_error_example:
  "new_events stored_world
     (snd (process_csv_rows voyage_env voyage_parser [hd voyage_rows, bad_row, voyage_rows ! 1]
        stored_world)) =
     [InsertRow ''voyage_123''
        [(''obs_date'', DateTime \<lparr>year = 2024, month = 3, day = 1, hour = 0, minute = 0, second = 0\<rparr>),
         (''temp'', Str ''4.5'')]]"
  by code_simp

lemma process_csv_row_ok:
  assumes "coerce_columns (csv_columns self) row [] = Inr flds"
  shows "new_events w (snd (process_csv_row env self row w)) = [InsertRow (table_name self) flds]"
proof -
  obtain x w' where d: "db_call w (InsertRow (table_name self) flds)
      (insert_row env (database w) (table_name self) flds) = (x, w')"
    by (cases "db_call w (InsertRow (table_name self) flds)
      (insert_row env (database w) (table_name self) flds)") auto
  from db_call_trace [OF d] show ?thesis
    using assms d by (simp add: process_csv_row_def new_events_def)
qed

lemma process_csv_rows_ok_trace:
  "process_csv_rows env self rows w = (Inr (), w') \<Longrightarrow>
     trace w' = trace w @
       map (\<lambda>row. InsertRow (table_name self) (projr (coerce_columns (csv_columns self) row []))) rows"
proof (induction rows arbitrary: w)
  case Nil
  then show ?case by simp
next
  case (Cons row rows)
  obtain r1 w1 where r1: "process_csv_row env self row w = (r1, w1)"
    by (cases "process_csv_row env self row w") auto
  with Cons.prems have ok: "r1 = Inr ()" and rest: "process_csv_rows env self rows w1 = (Inr (), w')"
    by (auto split: sum.splits)
  from r1 ok obtain flds where f: "coerce_columns (csv_columns self) row [] = Inr flds"
    by (cases "coerce_columns (csv_columns self) row []") (auto simp: process_csv_row_def)
  from process_csv_row_ok [OF f, of w env] r1
  have "new_events w w1 = [InsertRow (table_name self) flds]" by simp
  moreover have "length (trace w) \<le> length (trace w1) \<and> take (length (trace w)) (trace w1) = trace w"
    using r1 f by (auto simp: process_csv_row_def db_call_def emit_def split: sum.splits)
  ultimately have "trace w1 = trace w @ [InsertRow (table_name self) flds]"
    unfolding new_events_def by (metis append_take_drop_id)
  with Cons.IH [OF rest] f show ?case by simp
qed

text \<open>
  C10, as amended. A call of \<open>process_csv_row\<close> whose coercion raises nothing makes
  exactly one call of \<^verbatim>\<open>insert_row\<close>, with the coerced row; when every column is
  skipped that row is the empty mapping, and it is inserted all the same. When the
  loop over the records of a message ends without an exception, its calls are one
  \<^verbatim>\<open>insert_row\<close> for each record, in the order of the records. A record whose
  coercion raises gets no call: the exception leaves the world as it was.
\<close>

theorem one_insert_per_coerced_row:
  "(coerce_columns (csv_columns self) row [] = Inr flds \<longrightarrow>
      new_events w (snd (process_csv_row env self row w)) = [InsertRow (table_name self) flds]) \<and>
   ((\<forall>c \<in> set (csv_columns self). skipped row c) \<longrightarrow>
      new_events w (snd (process_csv_row env self row w)) = [InsertRow (table_name self) []]) \<and>
   (fst (process_csv_rows env self rows w) = Inr () \<longrightarrow>
      new_events w (snd (process_csv_rows env self rows w)) =
        map (\<lambda>row. InsertRow (table_name self) (projr (coerce_columns (csv_columns self) row [])))
            rows) \<and>
   (coerce_columns (csv_columns self) row [] = Inl e \<longrightarrow>
      process_csv_row env self row w = (Inl e, w))"
proof (intro conjI impI)
  assume "coerce_columns (csv_columns self) row [] = Inr flds"
  then show "new_events w (snd (process_csv_row env self row w)) = [InsertRow (table_name self) flds]"
    by (rule process_csv_row_ok)
next
  assume "\<forall>c \<in> set (csv_columns self). skipped row c"
  then have "coerce_columns (csv_columns self) row [] = Inr []" by (rule coerce_all_skipped)
  then show "new_events w (snd (process_csv_row env self row w)) = [InsertRow (table_name self) []]"
    by (rule process_csv_row_ok)
next
  assume a: "fst (process_csv_rows env self rows w) = Inr ()"
  then obtain w' where "process_csv_rows env self rows w = (Inr (), w')"
    by (cases "process_csv_rows env self rows w") auto
  from process_csv_rows_ok_trace [OF this] this
  show "new_events w (snd (process_csv_rows env self rows w)) =
        map (\<lambda>row. InsertRow (table_name self) (projr (coerce_columns (csv_columns self) row [])))
            rows"
    by (simp add: new_events_def)
next
  assume "coerce_columns (csv_columns self) row [] = Inl e"
  then show "process_csv_row env self row w = (Inl e, w)" by (rule process_csv_row_error)
qed

theorem one_insert_per_coerced_row_witness:
  "new_events stored_world (snd (process_csv_row voyage_env voyage_parser (voyage_rows ! 1) stored_world)) =
     [InsertRow (table_name voyage_parser) []] \<and>
   new_events stored_world (snd (process_csv_rows voyage_env voyage_parser voyage_rows stored_world)) =
     map (\<lambda>row. InsertRow (table_name voyage_parser)
                  (projr (coerce_columns (csv_columns voyage_parser) row [])))
         voyage_rows \<and>
   process_csv_row voyage_env voyage_parser bad_row stored_world = (Inl ValueError, stored_world)"
proof -
  have h1: "\<forall>c \<in> set (csv_columns voyage_parser). skipped (voyage_rows ! 1) c" by code_simp
  have h2: "fst (process_csv_rows voyage_env voyage_parser voyage_rows stored_world) = Inr ()"
    by code_simp
  have h3: "coerce_columns (csv_columns voyage_parser) bad_row [] = Inl ValueError" by code_simp
  show ?thesis
    using h1 h2 h3
      one_insert_per_coerced_row [of voyage_parser "voyage_rows ! 1" "[]" stored_world voyage_env
        voyage_rows ValueError]
      one_insert_per_coerced_row [of voyage_parser bad_row "[]" stored_world voyage_env
        voyage_rows ValueError]
    by blast
qed

text \<open>
  C10 as stated has one call of \<^verbatim>\<open>insert_row\<close> for every record of a matched
  message. Here a message is matched and its text has two records; the date of the
  first does not conform to the format. The message raises \<^verbatim>\<open>ValueError\<close>, and among
  its calls there is no \<^verbatim>\<open>insert_row\<close> at all: none for the first record, none for
  the second.
\<close>

theorem one_insert_per_record_counterexample:
  "accepts voyage_env (voyage_message\<lparr>payload := bad_csv\<rparr>) voyage_type \<and>
   length (csv_rows voyage_env (payload (voyage_message\<lparr>payload := bad_csv\<rparr>))) = 2 \<and>
   returned voyage_env stored_world (voyage_message\<lparr>payload := bad_csv\<rparr>) [voyage_type] =
     Inl ValueError \<and>
   filter is_insert
     (message_events voyage_env stored_world (voyage_message\<lparr>payload := bad_csv\<rparr>) [voyage_type]) = []"
  by code_simp

end
